theory Spec2Isabelle
  imports Complex_Main
begin

section \<open>Data model (types.ts)\<close>

text \<open>
  A \<open>TradeEntry\<close> carries a Unix timestamp in milliseconds, a price, a size, a side and
  a source. Timestamps are modelled as \<open>int\<close>: the store only ever divides them by the
  bucket width, takes the floor, compares and subtracts them, and on integral
  milliseconds below \<open>2^53\<close> a JavaScript number computes all of that exactly.
  The field \<open>size\<close> is called \<open>size_field\<close> here, since \<open>size\<close> is a constant of HOL.
\<close>

datatype trade_side = Buy | Sell

record TradeEntry =
  timestamp :: int
  price :: rat
  size_field :: rat
  side :: trade_side
  source :: string

text \<open>
  \<open>TimeRangeQueryOptions\<close>: the filters are optional. \<open>limit\<close> is a number of results,
  modelled as a natural number.
\<close>

record TimeRangeQueryOptions =
  q_start :: int
  q_end :: int
  q_source :: "string option"
  q_side :: "trade_side option"
  q_limit :: "nat option"

section \<open>The store (store/TimeSeriesStore.ts)\<close>

text \<open>
  The store extends Node's \<open>EventEmitter\<close>. A listener is an opaque callback, named by a
  number; \<open>emit\<close> calls the listeners of a topic in registration order, which is
  recorded as a growing log of deliveries.
\<close>

datatype event = EntryEvent TradeEntry | BatchEvent "TradeEntry list"

record TimeSeriesStore =
  buckets :: "int \<rightharpoonup> TradeEntry list"
  totalCount :: nat
  minTimestamp :: "int option"
  maxTimestamp :: "int option"
  entryListeners :: "nat list"
  batchListeners :: "nat list"
  delivered :: "(nat \<times> event) list"

definition BUCKET_SIZE_MS :: int where
  "BUCKET_SIZE_MS = 60000"

definition new_store :: TimeSeriesStore where
  "new_store = \<lparr>buckets = Map.empty, totalCount = 0, minTimestamp = None,
     maxTimestamp = None, entryListeners = [], batchListeners = [], delivered = []\<rparr>"

definition getBucketKey :: "int \<Rightarrow> int" where
  "getBucketKey ts = ts div BUCKET_SIZE_MS"

subsection \<open>The three binary searches\<close>

function findInsertIndex_loop :: "TradeEntry list \<Rightarrow> TradeEntry \<Rightarrow> nat \<Rightarrow> nat \<Rightarrow> nat" where
  "findInsertIndex_loop bucket entry low high =
     (if low < high then
        (if timestamp (bucket ! ((low + high) div 2)) < timestamp entry
         then findInsertIndex_loop bucket entry ((low + high) div 2 + 1) high
         else findInsertIndex_loop bucket entry low ((low + high) div 2))
      else low)"
  by pat_completeness auto
termination
  by (relation "measure (\<lambda>(bucket, entry, low, high). high - low)") auto

declare findInsertIndex_loop.simps [simp del]

definition findInsertIndex :: "TradeEntry list \<Rightarrow> TradeEntry \<Rightarrow> nat" where
  "findInsertIndex bucket entry = findInsertIndex_loop bucket entry 0 (length bucket)"

text \<open>
  \<open>findIndexAtTime\<close> starts with \<open>high = length - 1\<close>, which is \<open>-1\<close> on an empty bucket,
  and answers \<open>-1\<close> when nothing is found: its indices are integers.
\<close>

function findIndexAtTime_loop :: "TradeEntry list \<Rightarrow> int \<Rightarrow> int \<Rightarrow> int \<Rightarrow> int" where
  "findIndexAtTime_loop bucket ts low high =
     (if low \<le> high then
        (if timestamp (bucket ! nat ((low + high) div 2)) = ts
         then (low + high) div 2
         else if timestamp (bucket ! nat ((low + high) div 2)) < ts
         then findIndexAtTime_loop bucket ts ((low + high) div 2 + 1) high
         else findIndexAtTime_loop bucket ts low ((low + high) div 2 - 1))
      else -1)"
  by pat_completeness auto
termination
  by (relation "measure (\<lambda>(bucket, ts, low, high). nat (high - low + 1))") auto

declare findIndexAtTime_loop.simps [simp del]

definition findIndexAtTime :: "TradeEntry list \<Rightarrow> int \<Rightarrow> int" where
  "findIndexAtTime bucket ts = findIndexAtTime_loop bucket ts 0 (int (length bucket) - 1)"

function findFirstAtOrAfter_loop :: "TradeEntry list \<Rightarrow> int \<Rightarrow> nat \<Rightarrow> nat \<Rightarrow> nat" where
  "findFirstAtOrAfter_loop bucket ts low high =
     (if low < high then
        (if timestamp (bucket ! ((low + high) div 2)) < ts
         then findFirstAtOrAfter_loop bucket ts ((low + high) div 2 + 1) high
         else findFirstAtOrAfter_loop bucket ts low ((low + high) div 2))
      else low)"
  by pat_completeness auto
termination
  by (relation "measure (\<lambda>(bucket, ts, low, high). high - low)") auto

declare findFirstAtOrAfter_loop.simps [simp del]

definition findFirstAtOrAfter :: "TradeEntry list \<Rightarrow> int \<Rightarrow> nat" where
  "findFirstAtOrAfter bucket ts = findFirstAtOrAfter_loop bucket ts 0 (length bucket)"

subsection \<open>insert, insertBatch, clear, subscriptions\<close>

definition emit :: "nat list \<Rightarrow> event \<Rightarrow> (nat \<times> event) list \<Rightarrow> (nat \<times> event) list" where
  "emit listeners ev deliveries = deliveries @ map (\<lambda>l. (l, ev)) listeners"

text \<open>\<open>bucket.splice(i, 0, entry)\<close>: the entry goes in front of position \<open>i\<close>.\<close>

definition splice_at :: "nat \<Rightarrow> 'a \<Rightarrow> 'a list \<Rightarrow> 'a list" where
  "splice_at i x xs = take i xs @ x # drop i xs"

definition update_min :: "int option \<Rightarrow> int \<Rightarrow> int option" where
  "update_min m ts = (case m of None \<Rightarrow> Some ts | Some v \<Rightarrow> if ts < v then Some ts else Some v)"

definition update_max :: "int option \<Rightarrow> int \<Rightarrow> int option" where
  "update_max m ts = (case m of None \<Rightarrow> Some ts | Some v \<Rightarrow> if ts > v then Some ts else Some v)"

text \<open>The bucket of a key, created empty when absent (\<open>buckets.get\<close> then \<open>buckets.set\<close>).\<close>

definition get_or_create :: "(int \<rightharpoonup> TradeEntry list) \<Rightarrow> int \<Rightarrow> TradeEntry list" where
  "get_or_create m k = (case m k of None \<Rightarrow> [] | Some bucket \<Rightarrow> bucket)"

definition insert_entry :: "TimeSeriesStore \<Rightarrow> TradeEntry \<Rightarrow> TimeSeriesStore" where
  "insert_entry s entry =
     (let bucketKey = getBucketKey (timestamp entry);
          bucket = get_or_create (buckets s) bucketKey;
          insertIndex = findInsertIndex bucket entry
      in s\<lparr>buckets := (buckets s)(bucketKey \<mapsto> splice_at insertIndex entry bucket),
            totalCount := totalCount s + 1,
            minTimestamp := update_min (minTimestamp s) (timestamp entry),
            maxTimestamp := update_max (maxTimestamp s) (timestamp entry),
            delivered := emit (entryListeners s) (EntryEvent entry) (delivered s)\<rparr>)"

text \<open>One turn of the loop of \<open>insertBatch\<close>: the entry is pushed at the end of its bucket.\<close>

definition push_entry :: "TimeSeriesStore \<Rightarrow> TradeEntry \<Rightarrow> TimeSeriesStore" where
  "push_entry s entry =
     (let bucketKey = getBucketKey (timestamp entry);
          bucket = get_or_create (buckets s) bucketKey
      in s\<lparr>buckets := (buckets s)(bucketKey \<mapsto> bucket @ [entry]),
            totalCount := totalCount s + 1,
            minTimestamp := update_min (minTimestamp s) (timestamp entry),
            maxTimestamp := update_max (maxTimestamp s) (timestamp entry)\<rparr>)"

text \<open>
  \<open>[...entries].sort((a, b) => a.timestamp - b.timestamp)\<close> is a stable sort by timestamp,
  as \<open>sort_key\<close> is.
\<close>

definition insertBatch :: "TimeSeriesStore \<Rightarrow> TradeEntry list \<Rightarrow> TimeSeriesStore" where
  "insertBatch s entries =
     (let sorted_entries = sort_key timestamp entries;
          s' = foldl push_entry s sorted_entries
      in s'\<lparr>delivered := emit (batchListeners s') (BatchEvent sorted_entries) (delivered s')\<rparr>)"

definition clear :: "TimeSeriesStore \<Rightarrow> TimeSeriesStore" where
  "clear s = s\<lparr>buckets := Map.empty, totalCount := 0, minTimestamp := None, maxTimestamp := None\<rparr>"

definition subscribe :: "TimeSeriesStore \<Rightarrow> nat \<Rightarrow> TimeSeriesStore" where
  "subscribe s callback = s\<lparr>entryListeners := entryListeners s @ [callback]\<rparr>"

definition subscribeBatch :: "TimeSeriesStore \<Rightarrow> nat \<Rightarrow> TimeSeriesStore" where
  "subscribeBatch s callback = s\<lparr>batchListeners := batchListeners s @ [callback]\<rparr>"

text \<open>The store after the calls \<open>insert(e)\<close> for the entries of a list, from a new store.\<close>

definition inserts :: "TradeEntry list \<Rightarrow> TimeSeriesStore" where
  "inserts S = foldl insert_entry new_store S"

subsection \<open>getByTimeRange\<close>

text \<open>
  The filters and the limit are tested for truthiness before they are used
  (\<open>source && ...\<close>, \<open>side && ...\<close>, \<open>limit && ...\<close>): an empty source string and a limit
  of \<open>0\<close> count as not given. A side is \<open>'buy'\<close> or \<open>'sell'\<close>, both truthy.
\<close>

definition source_mismatch :: "string option \<Rightarrow> TradeEntry \<Rightarrow> bool" where
  "source_mismatch src entry =
     (case src of None \<Rightarrow> False | Some v \<Rightarrow> v \<noteq> [] \<and> source entry \<noteq> v)"

definition side_mismatch :: "trade_side option \<Rightarrow> TradeEntry \<Rightarrow> bool" where
  "side_mismatch sd entry = (case sd of None \<Rightarrow> False | Some v \<Rightarrow> side entry \<noteq> v)"

definition limit_reached :: "nat option \<Rightarrow> nat \<Rightarrow> bool" where
  "limit_reached limit n = (case limit of None \<Rightarrow> False | Some l \<Rightarrow> l \<noteq> 0 \<and> l \<le> n)"

text \<open>
  The inner loop over one bucket either falls out of the loop (\<open>break\<close>, or the end of the
  bucket) and the outer loop goes on, or it returns from the whole function.
\<close>

datatype 'a flow = Continue 'a | Return 'a

function scan_bucket ::
  "TimeRangeQueryOptions \<Rightarrow> TradeEntry list \<Rightarrow> nat \<Rightarrow> TradeEntry list \<Rightarrow> TradeEntry list flow" where
  "scan_bucket q bucket i results =
     (if i < length bucket then
        (if q_end q \<le> timestamp (bucket ! i) then Continue results
         else if source_mismatch (q_source q) (bucket ! i) then scan_bucket q bucket (i + 1) results
         else if side_mismatch (q_side q) (bucket ! i) then scan_bucket q bucket (i + 1) results
         else if limit_reached (q_limit q) (length (results @ [bucket ! i]))
         then Return (results @ [bucket ! i])
         else scan_bucket q bucket (i + 1) (results @ [bucket ! i]))
      else Continue results)"
  by pat_completeness auto
termination
  by (relation "measure (\<lambda>(q, bucket, i, results). length bucket - i)") auto

declare scan_bucket.simps [simp del]

function range_loop ::
  "TimeSeriesStore \<Rightarrow> TimeRangeQueryOptions \<Rightarrow> int \<Rightarrow> int \<Rightarrow> int \<Rightarrow> TradeEntry list
     \<Rightarrow> TradeEntry list" where
  "range_loop s q startBucket endBucket bucketKey results =
     (if bucketKey \<le> endBucket then
        (case buckets s bucketKey of
           None \<Rightarrow> range_loop s q startBucket endBucket (bucketKey + 1) results
         | Some bucket \<Rightarrow>
             (case scan_bucket q bucket
                     (if bucketKey = startBucket then findFirstAtOrAfter bucket (q_start q) else 0)
                     results of
                Return r \<Rightarrow> r
              | Continue r \<Rightarrow> range_loop s q startBucket endBucket (bucketKey + 1) r))
      else results)"
  by pat_completeness auto
termination
  by (relation "measure (\<lambda>(s, q, startBucket, endBucket, bucketKey, results).
        nat (endBucket - bucketKey + 1))") auto

declare range_loop.simps [simp del]

definition getByTimeRange :: "TimeSeriesStore \<Rightarrow> TimeRangeQueryOptions \<Rightarrow> TradeEntry list" where
  "getByTimeRange s q =
     range_loop s q (getBucketKey (q_start q)) (getBucketKey (q_end q - 1))
       (getBucketKey (q_start q)) []"

subsection \<open>getAtTime\<close>

function collect_at :: "TradeEntry list \<Rightarrow> int \<Rightarrow> nat \<Rightarrow> TradeEntry list \<Rightarrow> TradeEntry list" where
  "collect_at bucket ts i results =
     (if i < length bucket \<and> timestamp (bucket ! i) = ts
      then collect_at bucket ts (i + 1) (results @ [bucket ! i])
      else results)"
  by pat_completeness auto
termination
  by (relation "measure (\<lambda>(bucket, ts, i, results). length bucket - i)") auto

declare collect_at.simps [simp del]

definition getAtTime :: "TimeSeriesStore \<Rightarrow> int \<Rightarrow> TradeEntry list" where
  "getAtTime s ts =
     (case buckets s (getBucketKey ts) of
        None \<Rightarrow> []
      | Some bucket \<Rightarrow>
          (let startIndex = findIndexAtTime bucket ts
           in if startIndex = -1 then [] else collect_at bucket ts (nat startIndex) []))"

subsection \<open>getNearest\<close>

text \<open>
  \<open>minDistance\<close> starts at \<open>Infinity\<close>, here \<open>None\<close>: every distance is below it.
\<close>

definition closer :: "int \<Rightarrow> int option \<Rightarrow> bool" where
  "closer distance minDistance = (case minDistance of None \<Rightarrow> True | Some m \<Rightarrow> distance < m)"

text \<open>The search within the bucket of the timestamp itself (the first block of the method).\<close>

definition nearest_in_bucket :: "TradeEntry list \<Rightarrow> int \<Rightarrow> int \<Rightarrow> TradeEntry option" where
  "nearest_in_bucket bucket ts tolerance =
     (let index = findFirstAtOrAfter bucket ts;
          afterEntry = (if index < length bucket then Some (bucket ! index) else None);
          beforeEntry = (if 0 < index then Some (bucket ! (index - 1)) else None);
          after_step =
            (case afterEntry of
               None \<Rightarrow> (None, None)
             | Some a \<Rightarrow>
                 if \<bar>timestamp a - ts\<bar> \<le> tolerance \<and> closer \<bar>timestamp a - ts\<bar> None
                 then (Some a, Some \<bar>timestamp a - ts\<bar>) else (None, None))
      in (case beforeEntry of
            None \<Rightarrow> fst after_step
          | Some b \<Rightarrow>
              if \<bar>timestamp b - ts\<bar> \<le> tolerance \<and> closer \<bar>timestamp b - ts\<bar> (snd after_step)
              then Some b else fst after_step))"

text \<open>The loops over the adjacent buckets and over the two candidates of each.\<close>

definition consider_candidate ::
  "int \<Rightarrow> int \<Rightarrow> TradeEntry option \<times> int option \<Rightarrow> TradeEntry option
     \<Rightarrow> TradeEntry option \<times> int option" where
  "consider_candidate ts tolerance st candidate =
     (case candidate of
        None \<Rightarrow> st
      | Some c \<Rightarrow>
          if \<bar>timestamp c - ts\<bar> \<le> tolerance \<and> closer \<bar>timestamp c - ts\<bar> (snd st)
          then (Some c, Some \<bar>timestamp c - ts\<bar>) else st)"

definition consider_bucket ::
  "int \<Rightarrow> int \<Rightarrow> TradeEntry option \<times> int option \<Rightarrow> TradeEntry list option
     \<Rightarrow> TradeEntry option \<times> int option" where
  "consider_bucket ts tolerance st adjBucket =
     (case adjBucket of
        None \<Rightarrow> st
      | Some b \<Rightarrow>
          if b = [] then st
          else (let index = findFirstAtOrAfter b ts
                in foldl (consider_candidate ts tolerance) st
                     [if index < length b then Some (b ! index) else None,
                      if 0 < index then Some (b ! (index - 1)) else None]))"

definition getNearest :: "TimeSeriesStore \<Rightarrow> int \<Rightarrow> int \<Rightarrow> TradeEntry option" where
  "getNearest s ts tolerance =
     (let bucketKey = getBucketKey ts;
          found = (case buckets s bucketKey of
                     None \<Rightarrow> None
                   | Some bucket \<Rightarrow>
                       if bucket \<noteq> [] then nearest_in_bucket bucket ts tolerance else None)
      in (case found of
            Some e \<Rightarrow> Some e
          | None \<Rightarrow>
              fst (foldl (consider_bucket ts tolerance) (None, None)
                     [buckets s (bucketKey - 1), buckets s (bucketKey + 1)])))"

section \<open>JavaScript numbers and errors\<close>

text \<open>
  Where a value reaches the code from outside the store (an argument of the query API, a
  number of a parsed JSON payload), it is any JavaScript number: a finite one, one of the
  two infinities, or \<open>NaN\<close>.
\<close>

datatype 'a number = Finite 'a | PosInfinity | NegInfinity | NaN

fun isNaN :: "'a number \<Rightarrow> bool" where
  "isNaN NaN = True"
| "isNaN _ = False"

fun isFinite :: "'a number \<Rightarrow> bool" where
  "isFinite (Finite _) = True"
| "isFinite _ = False"

datatype error = Error string | TypeError | SyntaxError

section \<open>The query API (consumer/DataConsumer.ts)\<close>

text \<open>
  The optional third argument of \<open>DataConsumer.getByTimeRange\<close>; its fields are spread
  into the options of the store's query.
\<close>

record RangeFilters =
  f_source :: "string option"
  f_side :: "trade_side option"
  f_limit :: "nat option"

definition DataConsumer_getByTimeRange ::
  "TimeSeriesStore \<Rightarrow> int \<Rightarrow> int \<Rightarrow> RangeFilters option \<Rightarrow> error + TradeEntry list" where
  "DataConsumer_getByTimeRange s start end options =
     (if end \<le> start then Inl (Error ''Start timestamp must be less than end timestamp'')
      else Inr (getByTimeRange s
             (case options of
                None \<Rightarrow> \<lparr>q_start = start, q_end = end, q_source = None, q_side = None,
                          q_limit = None\<rparr>
              | Some f \<Rightarrow> \<lparr>q_start = start, q_end = end, q_source = f_source f,
                            q_side = f_side f, q_limit = f_limit f\<rparr>)))"

text \<open>
  The store's point queries at any JavaScript number. Every key of the bucket map is the
  bucket key of a stored, finite timestamp. \<open>Math.floor(x / 60000)\<close> is \<open>x\<close> itself when
  \<open>x\<close> is an infinity or \<open>NaN\<close>, and so are \<open>x - 1\<close> and \<open>x + 1\<close>: \<open>buckets.get\<close> finds no
  bucket, \<open>getAtTime\<close> returns the empty array and \<open>getNearest\<close> returns \<open>null\<close>.
\<close>

definition getAtTime_number :: "TimeSeriesStore \<Rightarrow> int number \<Rightarrow> TradeEntry list" where
  "getAtTime_number s t = (case t of Finite ts \<Rightarrow> getAtTime s ts | _ \<Rightarrow> [])"

text \<open>The tolerance is an optional argument with the default \<open>60000\<close>.\<close>

definition getNearest_number ::
  "TimeSeriesStore \<Rightarrow> int number \<Rightarrow> int option \<Rightarrow> TradeEntry option" where
  "getNearest_number s t tolerance =
     (case t of
        Finite ts \<Rightarrow> getNearest s ts (case tolerance of None \<Rightarrow> 60000 | Some v \<Rightarrow> v)
      | _ \<Rightarrow> None)"

definition DataConsumer_getAtTime :: "TimeSeriesStore \<Rightarrow> int number \<Rightarrow> error + TradeEntry list" where
  "DataConsumer_getAtTime s t =
     (if isNaN t then Inl (Error ''Timestamp must be a valid number'')
      else Inr (getAtTime_number s t))"

definition DataConsumer_getNearest ::
  "TimeSeriesStore \<Rightarrow> int number \<Rightarrow> int option \<Rightarrow> error + TradeEntry option" where
  "DataConsumer_getNearest s t tolerance =
     (if isNaN t then Inl (Error ''Timestamp must be a valid number'')
      else Inr (getNearest_number s t tolerance))"

section \<open>The object loader (S3Ingester.loadFile)\<close>

text \<open>
  A parsed JSON value. An object is the list of its properties, one pair for each name.
  \<open>JSON.parse\<close> gives a number too large for a double as an infinity (\<open>1e999\<close>), and never
  gives \<open>NaN\<close>.
\<close>

datatype json =
    JNull
  | JBool bool
  | JNumber "rat number"
  | JString string
  | JArray "json list"
  | JObject "(string \<times> json) list"

text \<open>
  What the loader gets for a key: the request fails, the response has no body, the body is
  not JSON, or the body parses to a value.
\<close>

datatype get_object = GetFails string | NoBody | NotJson | Parsed json

definition is_number :: "json option \<Rightarrow> bool" where
  "is_number v = (case v of Some (JNumber n) \<Rightarrow> True | _ \<Rightarrow> False)"

definition is_string :: "json option \<Rightarrow> bool" where
  "is_string v = (case v of Some (JString n) \<Rightarrow> True | _ \<Rightarrow> False)"

text \<open>
  The callback of \<open>entries.filter\<close>. Reading a property of \<open>null\<close> throws a \<open>TypeError\<close>; a
  number, a string, a boolean or an array has none of the five properties, which read as
  \<open>undefined\<close>.
\<close>

fun valid_entry :: "json \<Rightarrow> error + bool" where
  "valid_entry JNull = Inl TypeError"
| "valid_entry (JObject props) =
     Inr (is_number (map_of props ''timestamp'') \<and>
          is_number (map_of props ''price'') \<and>
          is_number (map_of props ''size'') \<and>
          (map_of props ''side'' = Some (JString ''buy'') \<or>
           map_of props ''side'' = Some (JString ''sell'')) \<and>
          is_string (map_of props ''source''))"
| "valid_entry _ = Inr False"

fun filter_entries :: "json list \<Rightarrow> error + json list" where
  "filter_entries [] = Inr []"
| "filter_entries (e # es) =
     (case valid_entry e of
        Inl err \<Rightarrow> Inl err
      | Inr keep \<Rightarrow>
          (case filter_entries es of
             Inl err \<Rightarrow> Inl err
           | Inr rest \<Rightarrow> Inr (if keep then e # rest else rest)))"

definition loadFile :: "(string \<Rightarrow> get_object) \<Rightarrow> string \<Rightarrow> error + json list" where
  "loadFile s3 key =
     (case s3 key of
        GetFails msg \<Rightarrow> Inl (Error msg)
      | NoBody \<Rightarrow> Inl (Error (''No body in response for '' @ key))
      | NotJson \<Rightarrow> Inl SyntaxError
      | Parsed data \<Rightarrow>
          filter_entries (case data of JArray entries \<Rightarrow> entries | _ \<Rightarrow> [data]))"

section \<open>The ingestion coordinator (ingestion/S3Ingester.ts)\<close>

text \<open>
  The coordinator holds the store and the set of processed keys. Two lists are kept beside
  them to count what it does: the keys it called \<open>loadFile\<close> with and the receipt handles
  of the messages it deleted. The outcome of \<open>loadFile\<close> for a key is a parameter \<open>load\<close>:
  the message of the error thrown, or the rows that passed validation.
\<close>

record S3Ingester =
  store :: TimeSeriesStore
  processedKeys :: "string set"
  loadFileCalls :: "string list"
  deletedMessages :: "string list"

record LoadResult =
  filesProcessed :: nat
  entriesLoaded :: nat
  errors :: "(string \<times> string) list"

definition endsWith :: "string \<Rightarrow> string \<Rightarrow> bool" where
  "endsWith str suffix =
     (length suffix \<le> length str \<and> drop (length str - length suffix) str = suffix)"

text \<open>
  A response of \<open>ListObjectsV2\<close>: its \<open>Contents\<close>, when present, are the \<open>Key\<close>s of the
  objects, each of which may be missing; when it has a \<open>NextContinuationToken\<close>, the request
  with that token gives the next response. The listing requests themselves succeed.
\<close>

datatype listing = Listing "string option list option" "listing option"

text \<open>The body of the loop over \<open>response.Contents\<close> in \<open>loadInitialData\<close>.\<close>

definition backfill_object ::
  "(string \<Rightarrow> string + TradeEntry list) \<Rightarrow> S3Ingester \<times> LoadResult \<Rightarrow> string option
     \<Rightarrow> S3Ingester \<times> LoadResult" where
  "backfill_object load st obj =
     (case obj of
        None \<Rightarrow> st
      | Some key \<Rightarrow>
          if key = [] then st
          else if \<not> endsWith key ''.json'' then st
          else (let ing = (fst st)\<lparr>loadFileCalls := loadFileCalls (fst st) @ [key]\<rparr>
                in (case load key of
                      Inr entries \<Rightarrow>
                        (ing\<lparr>store := insertBatch (store ing) entries,
                              processedKeys := insert key (processedKeys ing)\<rparr>,
                         (snd st)\<lparr>filesProcessed := filesProcessed (snd st) + 1,
                                   entriesLoaded := entriesLoaded (snd st) + length entries\<rparr>)
                    | Inl msg \<Rightarrow>
                        (ing, (snd st)\<lparr>errors := errors (snd st) @ [(key, msg)]\<rparr>))))"

fun loadInitialData_pages ::
  "(string \<Rightarrow> string + TradeEntry list) \<Rightarrow> listing \<Rightarrow> S3Ingester \<times> LoadResult
     \<Rightarrow> S3Ingester \<times> LoadResult" where
  "loadInitialData_pages load (Listing contents next) st =
     (case contents of
        None \<Rightarrow> st
      | Some objects \<Rightarrow>
          if objects = [] then st
          else (case next of
                  None \<Rightarrow> foldl (backfill_object load) st objects
                | Some l \<Rightarrow> loadInitialData_pages load l (foldl (backfill_object load) st objects)))"

definition loadInitialData ::
  "(string \<Rightarrow> string + TradeEntry list) \<Rightarrow> listing \<Rightarrow> S3Ingester \<Rightarrow> S3Ingester \<times> LoadResult" where
  "loadInitialData load l ing =
     loadInitialData_pages load l (ing, \<lparr>filesProcessed = 0, entriesLoaded = 0, errors = []\<rparr>)"

text \<open>
  The handling of one discovered key in a polling pass and in \<open>processSqsMessages\<close>: both
  skip a key that is not a \<open>.json\<close> key or is in the processed set.
\<close>

definition watch_key ::
  "(string \<Rightarrow> string + TradeEntry list) \<Rightarrow> S3Ingester \<Rightarrow> string option \<Rightarrow> S3Ingester" where
  "watch_key load ing obj =
     (case obj of
        None \<Rightarrow> ing
      | Some key \<Rightarrow>
          if key = [] \<or> \<not> endsWith key ''.json'' then ing
          else if key \<in> processedKeys ing then ing
          else (let ing1 = ing\<lparr>loadFileCalls := loadFileCalls ing @ [key]\<rparr>
                in (case load key of
                      Inr entries \<Rightarrow>
                        ing1\<lparr>store := insertBatch (store ing1) entries,
                               processedKeys := insert key (processedKeys ing1)\<rparr>
                    | Inl msg \<Rightarrow> ing1)))"

text \<open>One pass of \<open>poll\<close> over the listing.\<close>

fun poll_pages ::
  "(string \<Rightarrow> string + TradeEntry list) \<Rightarrow> listing \<Rightarrow> S3Ingester \<Rightarrow> S3Ingester" where
  "poll_pages load (Listing contents next) ing =
     (case next of
        None \<Rightarrow> (case contents of None \<Rightarrow> ing | Some objects \<Rightarrow> foldl (watch_key load) ing objects)
      | Some l \<Rightarrow>
          poll_pages load l
            (case contents of None \<Rightarrow> ing | Some objects \<Rightarrow> foldl (watch_key load) ing objects))"

text \<open>
  An SQS message: its body, when present, either is not JSON or is an event whose \<open>Records\<close>,
  when an array, give for each record the key \<open>record.s3?.object?.key\<close>, a string or
  \<open>undefined\<close>. A message that was processed is deleted; one whose body does not parse is
  logged and left.
\<close>

datatype sqs_body = BodyNotJson | S3Event "string option list option"

record Message =
  Body :: "sqs_body option"
  ReceiptHandle :: "string option"

definition process_message ::
  "(string \<Rightarrow> string + TradeEntry list) \<Rightarrow> S3Ingester \<Rightarrow> Message \<Rightarrow> S3Ingester" where
  "process_message load ing message =
     (case (Body message, ReceiptHandle message) of
        (Some body, Some handle) \<Rightarrow>
          if handle = [] then ing
          else (case body of
                  BodyNotJson \<Rightarrow> ing
                | S3Event records \<Rightarrow>
                    (let ing1 = (case records of
                                   None \<Rightarrow> ing
                                 | Some keys \<Rightarrow> foldl (watch_key load) ing keys)
                     in ing1\<lparr>deletedMessages := deletedMessages ing1 @ [handle]\<rparr>))
      | _ \<Rightarrow> ing)"

definition processSqsMessages ::
  "(string \<Rightarrow> string + TradeEntry list) \<Rightarrow> S3Ingester \<Rightarrow> Message list \<Rightarrow> S3Ingester" where
  "processSqsMessages load ing messages = foldl (process_message load) ing messages"

section \<open>Statements of the specification, and sample data\<close>

text \<open>The properties of a parsed row by name; a value that is not an object has none.\<close>

definition field_of :: "json \<Rightarrow> string \<Rightarrow> json option" where
  "field_of v k = (case v of JObject props \<Rightarrow> map_of props k | _ \<Rightarrow> None)"

definition finite_number :: "json option \<Rightarrow> bool" where
  "finite_number v = (case v of Some (JNumber n) \<Rightarrow> isFinite n | _ \<Rightarrow> False)"

text \<open>
  The validation as the specification words it: \<open>timestamp\<close>, \<open>price\<close> and \<open>size\<close> are
  finite numbers, \<open>side\<close> is \<open>"buy"\<close> or \<open>"sell"\<close>, \<open>source\<close> is a string.
\<close>

definition spec_valid_row :: "json \<Rightarrow> bool" where
  "spec_valid_row row =
     (finite_number (field_of row ''timestamp'') \<and>
      finite_number (field_of row ''price'') \<and>
      finite_number (field_of row ''size'') \<and>
      (field_of row ''side'' = Some (JString ''buy'') \<or>
       field_of row ''side'' = Some (JString ''sell'')) \<and>
      is_string (field_of row ''source''))"

text \<open>The same with numbers of any kind, the infinities included.\<close>

definition typed_row :: "json \<Rightarrow> bool" where
  "typed_row row =
     (is_number (field_of row ''timestamp'') \<and>
      is_number (field_of row ''price'') \<and>
      is_number (field_of row ''size'') \<and>
      (field_of row ''side'' = Some (JString ''buy'') \<or>
       field_of row ''side'' = Some (JString ''sell'')) \<and>
      is_string (field_of row ''source''))"

text \<open>A sample entry at a timestamp, told apart by its source.\<close>

definition trade :: "int \<Rightarrow> string \<Rightarrow> TradeEntry" where
  "trade ts src = \<lparr>timestamp = ts, price = 100, size_field = 1, side = Buy, source = src\<rparr>"

text \<open>A sample row of a payload, with the given \<open>timestamp\<close>.\<close>

definition row_at :: "rat number \<Rightarrow> json" where
  "row_at ts = JObject [(''timestamp'', JNumber ts), (''price'', JNumber (Finite 100)),
     (''size'', JNumber (Finite 1)), (''side'', JString ''buy''), (''source'', JString ''T'')]"

text \<open>A coordinator that has processed nothing yet.\<close>

definition new_ingester :: S3Ingester where
  "new_ingester = \<lparr>store = new_store, processedKeys = {}, loadFileCalls = [],
     deletedMessages = []\<rparr>"

text \<open>The states of a store that calls of its public operations can reach from a new one.\<close>

inductive reachable :: "TimeSeriesStore \<Rightarrow> bool" where
  reachable_new: "reachable new_store"
| reachable_insert: "reachable s \<Longrightarrow> reachable (insert_entry s e)"
| reachable_insertBatch: "reachable s \<Longrightarrow> reachable (insertBatch s es)"
| reachable_clear: "reachable s \<Longrightarrow> reachable (clear s)"
| reachable_subscribe: "reachable s \<Longrightarrow> reachable (subscribe s cb)"
| reachable_subscribeBatch: "reachable s \<Longrightarrow> reachable (subscribeBatch s cb)"

text \<open>Every entry of every bucket has the key of its bucket.\<close>

definition keyed :: "TimeSeriesStore \<Rightarrow> bool" where
  "keyed s = (\<forall>k b e. buckets s k = Some b \<longrightarrow> e \<in> set b \<longrightarrow> getBucketKey (timestamp e) = k)"

text \<open>
  What the loops of \<open>getNearest\<close> keep: the pair \<open>(nearest, minDistance)\<close> holds an entry
  of the set \<open>A\<close> looked at so far that is within the tolerance and nearest to \<open>ts\<close>
  among \<open>A\<close>, with its distance, or nothing when no entry of \<open>A\<close> is within the tolerance.
\<close>

definition best ::
  "TradeEntry set \<Rightarrow> int \<Rightarrow> int \<Rightarrow> TradeEntry option \<times> int option \<Rightarrow> bool" where
  "best A ts tolerance st =
     (case fst st of
        None \<Rightarrow> snd st = None \<and> (\<forall>x\<in>A. tolerance < \<bar>timestamp x - ts\<bar>)
      | Some e \<Rightarrow>
          snd st = Some \<bar>timestamp e - ts\<bar> \<and> e \<in> A \<and> \<bar>timestamp e - ts\<bar> \<le> tolerance \<and>
          (\<forall>x\<in>A. \<bar>timestamp e - ts\<bar> \<le> \<bar>timestamp x - ts\<bar>))"

text \<open>The entries stored in the bucket of a key (none when there is no such bucket).\<close>

definition bucket_entries :: "TimeSeriesStore \<Rightarrow> int \<Rightarrow> TradeEntry set" where
  "bucket_entries s k = set (get_or_create (buckets s) k)"

text \<open>Every bucket is non-decreasing by timestamp.\<close>

definition sorted_buckets :: "TimeSeriesStore \<Rightarrow> bool" where
  "sorted_buckets s = (\<forall>k b. buckets s k = Some b \<longrightarrow> sorted (map timestamp b))"

text \<open>
  The range query as the specification words it, over the sequence \<open>S\<close> of inserted
  entries: the entries in timestamp order with ties in insertion order (a stable sort of
  \<open>S\<close>), those in the half-open window that match the filters that are set, cut to the
  first \<open>limit\<close> when a limit is set.
\<close>

definition range_spec :: "TradeEntry list \<Rightarrow> TimeRangeQueryOptions \<Rightarrow> TradeEntry list" where
  "range_spec S q =
     (let hits = filter (\<lambda>e. q_start q \<le> timestamp e \<and> timestamp e < q_end q \<and>
                             (q_source q = None \<or> q_source q = Some (source e)) \<and>
                             (q_side q = None \<or> q_side q = Some (side e)))
                   (sort_key timestamp S)
      in case q_limit q of None \<Rightarrow> hits | Some n \<Rightarrow> take n hits)"

text \<open>
  For the loops of \<open>getByTimeRange\<close>: the limit that is in force (none when it is \<open>0\<close>),
  the cut it makes, and what a bucket contributes from an index on.
\<close>

definition active_limit :: "TimeRangeQueryOptions \<Rightarrow> nat option" where
  "active_limit q = (case q_limit q of None \<Rightarrow> None | Some l \<Rightarrow> if l = 0 then None else Some l)"

definition cut_limit :: "nat option \<Rightarrow> 'a list \<Rightarrow> 'a list" where
  "cut_limit limit ys = (case limit of None \<Rightarrow> ys | Some l \<Rightarrow> take l ys)"

definition finish :: "nat option \<Rightarrow> 'a list \<Rightarrow> 'a list flow" where
  "finish limit ys =
     (case limit of
        None \<Rightarrow> Continue ys
      | Some l \<Rightarrow> if l \<le> length ys then Return (take l ys) else Continue ys)"

definition passes :: "TimeRangeQueryOptions \<Rightarrow> TradeEntry \<Rightarrow> bool" where
  "passes q e = (\<not> source_mismatch (q_source q) e \<and> \<not> side_mismatch (q_side q) e)"

definition slice :: "TimeRangeQueryOptions \<Rightarrow> TradeEntry list \<Rightarrow> nat \<Rightarrow> TradeEntry list" where
  "slice q bucket i = filter (passes q) (takeWhile (\<lambda>e. timestamp e < q_end q) (drop i bucket))"

definition bucket_slice :: "TimeSeriesStore \<Rightarrow> TimeRangeQueryOptions \<Rightarrow> int \<Rightarrow> TradeEntry list" where
  "bucket_slice s q k =
     (case buckets s k of
        None \<Rightarrow> []
      | Some bucket \<Rightarrow>
          slice q bucket
            (if k = getBucketKey (q_start q) then findFirstAtOrAfter bucket (q_start q) else 0))"

section \<open>Properties of the store\<close>

subsection \<open>The binary searches on a bucket sorted by timestamp\<close>

lemma sorted_nth_le:
  "sorted (map timestamp b) \<Longrightarrow> i \<le> j \<Longrightarrow> j < length b \<Longrightarrow> timestamp (b ! i) \<le> timestamp (b ! j)"
  using sorted_nth_mono[of "map timestamp b" i j] by simp

lemma findFirstAtOrAfter_loop_inv:
  assumes "sorted (map timestamp b)" "low \<le> high" "high \<le> length b"
    "\<forall>j<low. timestamp (b ! j) < t"
    "\<forall>j. high \<le> j \<and> j < length b \<longrightarrow> t \<le> timestamp (b ! j)"
  shows "findFirstAtOrAfter_loop b t low high \<le> length b \<and>
    (\<forall>j<findFirstAtOrAfter_loop b t low high. timestamp (b ! j) < t) \<and>
    (\<forall>j. findFirstAtOrAfter_loop b t low high \<le> j \<and> j < length b \<longrightarrow> t \<le> timestamp (b ! j))"
  using assms
proof (induction b t low high rule: findFirstAtOrAfter_loop.induct)
  case (1 bucket ts low high)
  let ?mid = "(low + high) div 2"
  note srt = "1.prems"(1) and lh = "1.prems"(2) and hl = "1.prems"(3)
    and below = "1.prems"(4) and above = "1.prems"(5)
  show ?case
  proof (cases "low < high")
    case False
    with lh have eq: "low = high" by simp
    have r: "findFirstAtOrAfter_loop bucket ts low high = low"
      using False by (subst findFirstAtOrAfter_loop.simps) simp
    show ?thesis unfolding r using hl below above eq by simp
  next
    case True
    then have mid: "low \<le> ?mid" "?mid < high" by linarith+
    with hl have midlen: "?mid < length bucket" by linarith
    show ?thesis
    proof (cases "timestamp (bucket ! ?mid) < ts")
      case lt: True
      have r: "findFirstAtOrAfter_loop bucket ts low high = findFirstAtOrAfter_loop bucket ts (?mid + 1) high"
        using True lt by (subst findFirstAtOrAfter_loop.simps) simp
      have b': "\<forall>j<?mid + 1. timestamp (bucket ! j) < ts"
      proof (intro allI impI)
        fix j assume "j < ?mid + 1"
        then have "j \<le> ?mid" by simp
        then have "timestamp (bucket ! j) \<le> timestamp (bucket ! ?mid)"
          using midlen srt by (rule_tac sorted_nth_le)
        with lt show "timestamp (bucket ! j) < ts" by linarith
      qed
      have "?mid + 1 \<le> high" using mid by linarith
      from "1.IH"(1)[OF True lt srt this hl b' above] show ?thesis unfolding r .
    next
      case ge: False
      have r: "findFirstAtOrAfter_loop bucket ts low high = findFirstAtOrAfter_loop bucket ts low ?mid"
        using True ge by (subst findFirstAtOrAfter_loop.simps) simp
      have a': "\<forall>j. ?mid \<le> j \<and> j < length bucket \<longrightarrow> ts \<le> timestamp (bucket ! j)"
      proof (intro allI impI)
        fix j assume j: "?mid \<le> j \<and> j < length bucket"
        then have "timestamp (bucket ! ?mid) \<le> timestamp (bucket ! j)"
          using srt by (rule_tac sorted_nth_le) auto
        with ge show "ts \<le> timestamp (bucket ! j)" by linarith
      qed
      have "?mid \<le> length bucket" using midlen by linarith
      from "1.IH"(2)[OF True ge srt mid(1) this below a'] show ?thesis unfolding r .
    qed
  qed
qed

lemma findFirstAtOrAfter_takeWhile:
  assumes "sorted (map timestamp b)"
  shows "findFirstAtOrAfter b t = length (takeWhile (\<lambda>e. timestamp e < t) b)"
proof -
  let ?r = "findFirstAtOrAfter b t"
  have inv: "?r \<le> length b \<and> (\<forall>j<?r. timestamp (b ! j) < t) \<and>
    (\<forall>j. ?r \<le> j \<and> j < length b \<longrightarrow> t \<le> timestamp (b ! j))"
    unfolding findFirstAtOrAfter_def
    by (rule findFirstAtOrAfter_loop_inv[OF assms]) simp_all
  have "takeWhile (\<lambda>e. timestamp e < t) b = take ?r b"
  proof (rule takeWhile_eq_take_P_nth)
    fix i assume "i < ?r" "i < length b"
    with inv show "timestamp (b ! i) < t" by blast
  next
    assume "?r < length b"
    with inv have "t \<le> timestamp (b ! ?r)" by blast
    then show "\<not> timestamp (b ! ?r) < t" by linarith
  qed
  then have "length (takeWhile (\<lambda>e. timestamp e < t) b) = min (length b) ?r" by simp
  with inv show ?thesis by linarith
qed

lemma findInsertIndex_loop_eq:
  "findInsertIndex_loop b e low high = findFirstAtOrAfter_loop b (timestamp e) low high"
proof (induction b e low high rule: findInsertIndex_loop.induct)
  case (1 bucket entry low high)
  show ?case
  proof (cases "low < high")
    case False
    then show ?thesis
      by (subst findInsertIndex_loop.simps, subst findFirstAtOrAfter_loop.simps) simp
  next
    case True
    show ?thesis
    proof (cases "timestamp (bucket ! ((low + high) div 2)) < timestamp entry")
      case lt: True
      from "1.IH"(1)[OF True lt] True lt show ?thesis
        by (subst findInsertIndex_loop.simps, subst findFirstAtOrAfter_loop.simps) simp
    next
      case ge: False
      from "1.IH"(2)[OF True ge] True ge show ?thesis
        by (subst findInsertIndex_loop.simps, subst findFirstAtOrAfter_loop.simps) simp
    qed
  qed
qed

lemma findInsertIndex_eq: "findInsertIndex b e = findFirstAtOrAfter b (timestamp e)"
  unfolding findInsertIndex_def findFirstAtOrAfter_def by (rule findInsertIndex_loop_eq)

lemma insort_key_takeWhile:
  "insort_key f x xs = takeWhile (\<lambda>y. f y < f x) xs @ x # dropWhile (\<lambda>y. f y < f x) xs"
  by (induction xs) (auto simp: not_less)

lemma splice_insort:
  assumes "sorted (map timestamp b)"
  shows "splice_at (findInsertIndex b e) e b = insort_key timestamp e b"
proof -
  let ?P = "\<lambda>y. timestamp y < timestamp e"
  have i: "findInsertIndex b e = length (takeWhile ?P b)"
    unfolding findInsertIndex_eq by (rule findFirstAtOrAfter_takeWhile[OF assms])
  have "take (length (takeWhile ?P b)) b = takeWhile ?P b"
    by (rule takeWhile_eq_take[symmetric])
  moreover have "drop (length (takeWhile ?P b)) b = dropWhile ?P b"
    by (rule dropWhile_eq_drop[symmetric])
  ultimately show ?thesis
    unfolding i splice_at_def insort_key_takeWhile[of timestamp e b] by simp
qed

subsection \<open>insertBatch of an empty sequence\<close>

text \<open>
  C10: \<open>insertBatch([])\<close> changes no bucket and keeps \<open>totalCount\<close>, \<open>minTimestamp\<close> and
  \<open>maxTimestamp\<close> (and the listeners), and it emits one batch event carrying the empty
  sequence: every batch listener is called once, in registration order, and nothing else
  is delivered.
\<close>

theorem insertBatch_empty:
  "buckets (insertBatch s []) = buckets s \<and>
   totalCount (insertBatch s []) = totalCount s \<and>
   minTimestamp (insertBatch s []) = minTimestamp s \<and>
   maxTimestamp (insertBatch s []) = maxTimestamp s \<and>
   entryListeners (insertBatch s []) = entryListeners s \<and>
   batchListeners (insertBatch s []) = batchListeners s \<and>
   delivered (insertBatch s []) = delivered s @ map (\<lambda>l. (l, BatchEvent [])) (batchListeners s)"
  by (simp add: insertBatch_def emit_def)

section \<open>Properties of the query API\<close>

text \<open>
  C9, as the code has it: \<open>getByTimeRange(start, end)\<close> throws exactly when
  \<open>start \<ge> end\<close> and otherwise returns what the store returns for the same bounds and
  filters; \<open>getAtTime(t)\<close> and \<open>getNearest(t)\<close> throw exactly when \<open>t\<close> is \<open>NaN\<close>, and
  otherwise (for the two infinities too) return what the store returns. None of the three
  changes the store: they are functions of it.
\<close>

theorem DataConsumer_argument_checks:
  "DataConsumer_getByTimeRange s start end None =
     (if end \<le> start then Inl (Error ''Start timestamp must be less than end timestamp'')
      else Inr (getByTimeRange s
             \<lparr>q_start = start, q_end = end, q_source = None, q_side = None, q_limit = None\<rparr>)) \<and>
   DataConsumer_getByTimeRange s start end (Some f) =
     (if end \<le> start then Inl (Error ''Start timestamp must be less than end timestamp'')
      else Inr (getByTimeRange s
             \<lparr>q_start = start, q_end = end, q_source = f_source f, q_side = f_side f,
              q_limit = f_limit f\<rparr>)) \<and>
   DataConsumer_getAtTime s t =
     (if t = NaN then Inl (Error ''Timestamp must be a valid number'')
      else Inr (getAtTime_number s t)) \<and>
   DataConsumer_getNearest s t tolerance =
     (if t = NaN then Inl (Error ''Timestamp must be a valid number'')
      else Inr (getNearest_number s t tolerance)) \<and>
   getAtTime_number s (Finite ts) = getAtTime s ts \<and>
   getNearest_number s (Finite ts) (Some tol) = getNearest s ts tol \<and>
   getNearest_number s (Finite ts) None = getNearest s ts 60000"
  by (cases t)
     (simp_all add: DataConsumer_getByTimeRange_def DataConsumer_getAtTime_def
        DataConsumer_getNearest_def getAtTime_number_def getNearest_number_def)

text \<open>
  The claim as stated fails at positive infinity, which is not finite and is not rejected:
  both calls go to the store and return its answer (here on a new store).
\<close>

theorem DataConsumer_accepts_infinity:
  "\<not> isFinite (PosInfinity :: int number) \<and>
   DataConsumer_getAtTime new_store PosInfinity = Inr [] \<and>
   DataConsumer_getNearest new_store PosInfinity None = Inr None \<and>
   \<not> isFinite (NegInfinity :: int number) \<and>
   DataConsumer_getAtTime new_store NegInfinity = Inr [] \<and>
   DataConsumer_getNearest new_store NegInfinity None = Inr None"
  by (simp add: DataConsumer_getAtTime_def DataConsumer_getNearest_def getAtTime_number_def
      getNearest_number_def)

section \<open>Properties of the object loader\<close>

lemma valid_entry_typed_row:
  "row \<noteq> JNull \<Longrightarrow> valid_entry row = Inr (typed_row row)"
  by (cases row) (simp_all add: typed_row_def field_of_def is_number_def is_string_def)

lemma filter_entries_no_null:
  "JNull \<notin> set rows \<Longrightarrow> filter_entries rows = Inr (filter typed_row rows)"
proof (induction rows)
  case Nil
  show ?case by simp
next
  case (Cons row rows)
  then have "row \<noteq> JNull" and "JNull \<notin> set rows" by auto
  with Cons.IH show ?case by (simp add: valid_entry_typed_row)
qed

text \<open>
  C7, as the code has it: of a payload that was fetched and parsed, a single object or an
  array with no \<open>null\<close> element, the loader keeps a row if and only if its \<open>timestamp\<close>,
  \<open>price\<close> and \<open>size\<close> are numbers (of any kind), its \<open>side\<close> is \<open>"buy"\<close> or \<open>"sell"\<close> and
  its \<open>source\<close> is a string; the other rows are dropped, the file is not aborted, and the
  rows kept are in payload order.
\<close>

theorem loadFile_keeps_typed_rows:
  assumes "s3 key = Parsed data"
    and "JNull \<notin> set (case data of JArray entries \<Rightarrow> entries | _ \<Rightarrow> [data])"
  shows "loadFile s3 key =
     Inr (filter typed_row (case data of JArray entries \<Rightarrow> entries | _ \<Rightarrow> [data]))"
  using assms by (simp add: loadFile_def filter_entries_no_null)

theorem loadFile_keeps_typed_rows_witness:
  "loadFile (\<lambda>k. Parsed (JArray [row_at (Finite 1000), JObject [(''timestamp'', JNumber (Finite 5))],
       JString ''x'', row_at (Finite 2000)])) ''a.json'' =
     Inr [row_at (Finite 1000), row_at (Finite 2000)]"
  using loadFile_keeps_typed_rows[of "\<lambda>k. Parsed (JArray [row_at (Finite 1000),
       JObject [(''timestamp'', JNumber (Finite 5))], JString ''x'', row_at (Finite 2000)])"
      "''a.json''"
      "JArray [row_at (Finite 1000), JObject [(''timestamp'', JNumber (Finite 5))],
         JString ''x'', row_at (Finite 2000)]"]
  by (simp add: row_at_def typed_row_def field_of_def is_number_def is_string_def)

text \<open>
  The claim as stated asks for finite numbers. The payload
  \<open>{"timestamp": 1e999, "price": 100, "size": 1, "side": "buy", "source": "T"}\<close> parses
  to a row whose timestamp is infinite, and the loader keeps it.
\<close>

theorem loadFile_keeps_infinite_timestamp:
  "\<not> spec_valid_row (row_at PosInfinity) \<and>
   loadFile (\<lambda>k. Parsed (row_at PosInfinity)) ''a.json'' = Inr [row_at PosInfinity]"
  by (simp add: spec_valid_row_def finite_number_def field_of_def row_at_def loadFile_def
      is_number_def is_string_def)

section \<open>Properties of the ingestion coordinator\<close>

lemma watch_key_processed:
  "key \<in> processedKeys ing \<Longrightarrow> watch_key load ing (Some key) = ing"
  by (simp add: watch_key_def)

lemma watch_key_keeps_processed:
  "key \<in> processedKeys ing \<Longrightarrow> key \<in> processedKeys (watch_key load ing obj)"
  by (simp add: watch_key_def Let_def split: option.splits sum.splits)

lemma watch_key_no_reload:
  "key \<in> processedKeys ing \<Longrightarrow>
   count_list (loadFileCalls (watch_key load ing obj)) key = count_list (loadFileCalls ing) key"
  by (auto simp: watch_key_def Let_def split: option.splits sum.splits)

lemma watch_keys_no_reload:
  "key \<in> processedKeys ing \<Longrightarrow>
   key \<in> processedKeys (foldl (watch_key load) ing objs) \<and>
   count_list (loadFileCalls (foldl (watch_key load) ing objs)) key =
     count_list (loadFileCalls ing) key"
proof (induction objs arbitrary: ing)
  case Nil
  then show ?case by simp
next
  case (Cons obj objs)
  from Cons.prems have p: "key \<in> processedKeys (watch_key load ing obj)"
    by (rule watch_key_keeps_processed)
  from Cons.IH[OF p] watch_key_no_reload[OF Cons.prems, of load obj] show ?case by simp
qed

lemma poll_pages_no_reload:
  "key \<in> processedKeys ing \<Longrightarrow>
   key \<in> processedKeys (poll_pages load l ing) \<and>
   count_list (loadFileCalls (poll_pages load l ing)) key = count_list (loadFileCalls ing) key"
proof (induction load l ing rule: poll_pages.induct)
  case (1 load contents nxt ing)
  define ing' where
    "ing' = (case contents of None \<Rightarrow> ing | Some objects \<Rightarrow> foldl (watch_key load) ing objects)"
  have step: "key \<in> processedKeys ing' \<and>
      count_list (loadFileCalls ing') key = count_list (loadFileCalls ing) key"
    using watch_keys_no_reload[OF "1.prems"] "1.prems"
    by (cases contents) (simp_all add: ing'_def)
  show ?case
  proof (cases nxt)
    case None
    with step show ?thesis by (simp add: ing'_def)
  next
    case (Some l)
    from "1.IH"[OF Some] step have
      "key \<in> processedKeys (poll_pages load l ing') \<and>
       count_list (loadFileCalls (poll_pages load l ing')) key = count_list (loadFileCalls ing') key"
      by (simp add: ing'_def)
    with step Some show ?thesis by (simp add: ing'_def)
  qed
qed

lemma process_message_no_reload:
  "key \<in> processedKeys ing \<Longrightarrow>
   key \<in> processedKeys (process_message load ing message) \<and>
   count_list (loadFileCalls (process_message load ing message)) key =
     count_list (loadFileCalls ing) key"
  using watch_keys_no_reload[of key ing load]
  by (simp add: process_message_def Let_def split: option.splits sqs_body.splits)

lemma processSqsMessages_no_reload:
  "key \<in> processedKeys ing \<Longrightarrow>
   key \<in> processedKeys (processSqsMessages load ing messages) \<and>
   count_list (loadFileCalls (processSqsMessages load ing messages)) key =
     count_list (loadFileCalls ing) key"
  unfolding processSqsMessages_def
proof (induction messages arbitrary: ing)
  case Nil
  then show ?case by simp
next
  case (Cons m ms)
  from process_message_no_reload[OF Cons.prems, of load m] Cons.IH[of "process_message load ing m"]
  show ?case by simp
qed

text \<open>
  A key of the processed set is never loaded again by a polling pass or by the handling of
  SQS messages, however often it is discovered: the number of \<open>loadFile\<close> calls for it
  stays what it was. Since \<open>insertBatch\<close> is only called with what \<open>loadFile\<close> has just
  returned, nothing of that key is inserted either.
\<close>

theorem watching_skips_processed_keys:
  assumes "key \<in> processedKeys ing"
  shows "count_list (loadFileCalls (poll_pages load l ing)) key = count_list (loadFileCalls ing) key \<and>
     count_list (loadFileCalls (processSqsMessages load ing messages)) key =
       count_list (loadFileCalls ing) key"
  using poll_pages_no_reload[OF assms] processSqsMessages_no_reload[OF assms] by simp

text \<open>
  C8 fails for the backfill: \<open>loadInitialData\<close> never looks at the processed set. A second
  backfill over a listing of the one key \<open>a.json\<close>, which the first backfill has put in the
  processed set, loads the file again and inserts its entry a second time.
\<close>

theorem loadInitialData_reloads_processed_key:
  "''a.json'' \<in> processedKeys (fst (loadInitialData (\<lambda>k. Inr [trade 1000 ''T''])
        (Listing (Some [Some ''a.json'']) None) new_ingester)) \<and>
   loadFileCalls (fst (loadInitialData (\<lambda>k. Inr [trade 1000 ''T''])
        (Listing (Some [Some ''a.json'']) None)
        (fst (loadInitialData (\<lambda>k. Inr [trade 1000 ''T''])
           (Listing (Some [Some ''a.json'']) None) new_ingester)))) = [''a.json'', ''a.json''] \<and>
   totalCount (store (fst (loadInitialData (\<lambda>k. Inr [trade 1000 ''T''])
        (Listing (Some [Some ''a.json'']) None)
        (fst (loadInitialData (\<lambda>k. Inr [trade 1000 ''T''])
           (Listing (Some [Some ''a.json'']) None) new_ingester))))) = 2 \<and>
   buckets (store (fst (loadInitialData (\<lambda>k. Inr [trade 1000 ''T''])
        (Listing (Some [Some ''a.json'']) None)
        (fst (loadInitialData (\<lambda>k. Inr [trade 1000 ''T''])
           (Listing (Some [Some ''a.json'']) None) new_ingester))))) 0 =
     Some [trade 1000 ''T'', trade 1000 ''T'']"
  by (simp add: loadInitialData_def backfill_object_def endsWith_def new_ingester_def
      new_store_def insertBatch_def push_entry_def get_or_create_def getBucketKey_def
      BUCKET_SIZE_MS_def update_min_def update_max_def emit_def trade_def Let_def)

theorem watching_skips_processed_keys_witness:
  "count_list (loadFileCalls (poll_pages (\<lambda>k. Inr [trade 1000 ''T''])
       (Listing (Some [Some ''a.json'']) None)
       (new_ingester\<lparr>processedKeys := {''a.json''}\<rparr>))) ''a.json'' = 0 \<and>
   count_list (loadFileCalls (processSqsMessages (\<lambda>k. Inr [trade 1000 ''T''])
       (new_ingester\<lparr>processedKeys := {''a.json''}\<rparr>)
       [\<lparr>Body = Some (S3Event (Some [Some ''a.json''])), ReceiptHandle = Some ''h''\<rparr>])) ''a.json'' = 0"
  using watching_skips_processed_keys[of "''a.json''" "new_ingester\<lparr>processedKeys := {''a.json''}\<rparr>"
      "\<lambda>k. Inr [trade 1000 ''T'']" "Listing (Some [Some ''a.json'']) None"
      "[\<lparr>Body = Some (S3Event (Some [Some ''a.json''])), ReceiptHandle = Some ''h''\<rparr>]"]
  by (simp add: new_ingester_def)

subsection \<open>insert keeps a bucket sorted, new entries in front of their equals\<close>

lemma sorted_takeWhile_filter:
  "sorted (map f xs) \<Longrightarrow> takeWhile (\<lambda>y. f y < (c::int)) xs = filter (\<lambda>y. f y < c) xs"
proof (induction xs)
  case Nil
  show ?case by simp
next
  case (Cons x xs)
  show ?case
  proof (cases "f x < c")
    case True
    with Cons show ?thesis by simp
  next
    case False
    with Cons.prems have "\<forall>y\<in>set xs. \<not> f y < c" by auto
    then have "filter (\<lambda>y. f y < c) xs = []" by (simp add: filter_empty_conv)
    with False show ?thesis by simp
  qed
qed

lemma sorted_dropWhile_filter:
  "sorted (map f xs) \<Longrightarrow> dropWhile (\<lambda>y. f y < (c::int)) xs = filter (\<lambda>y. c \<le> f y) xs"
proof (induction xs)
  case Nil
  show ?case by simp
next
  case (Cons x xs)
  show ?case
  proof (cases "f x < c")
    case True
    with Cons show ?thesis by simp
  next
    case False
    with Cons.prems have "\<forall>y\<in>set xs. c \<le> f y" by auto
    then have "filter (\<lambda>y. c \<le> f y) xs = xs" by (simp add: filter_id_conv)
    with False show ?thesis by simp
  qed
qed

lemma buckets_insert_entry:
  "buckets (insert_entry s e) =
     (buckets s)(getBucketKey (timestamp e) \<mapsto>
        splice_at (findInsertIndex (get_or_create (buckets s) (getBucketKey (timestamp e))) e) e
          (get_or_create (buckets s) (getBucketKey (timestamp e))))"
  by (simp add: insert_entry_def Let_def)

lemma buckets_insert_entry_sorted:
  assumes "sorted (map timestamp (get_or_create (buckets s) (getBucketKey (timestamp e))))"
  shows "buckets (insert_entry s e) =
     (buckets s)(getBucketKey (timestamp e) \<mapsto>
        insort_key timestamp e (get_or_create (buckets s) (getBucketKey (timestamp e))))"
  unfolding buckets_insert_entry splice_insort[OF assms] ..

lemma inserts_snoc: "inserts (S @ [e]) = insert_entry (inserts S) e"
  by (simp add: inserts_def)

lemma buckets_inserts:
  "buckets (inserts S) k =
     (if filter (\<lambda>e. getBucketKey (timestamp e) = k) (sort_key timestamp (rev S)) = [] then None
      else Some (filter (\<lambda>e. getBucketKey (timestamp e) = k) (sort_key timestamp (rev S))))"
proof (induction S arbitrary: k rule: rev_induct)
  case Nil
  show ?case by (simp add: inserts_def new_store_def)
next
  case (snoc e S)
  let ?all = "sort_key timestamp (rev S)"
  let ?ke = "getBucketKey (timestamp e)"
  let ?P = "\<lambda>k x. getBucketKey (timestamp x) = k"
  have srt: "sorted (map timestamp ?all)" by simp
  have goc: "get_or_create (buckets (inserts S)) ?ke = filter (?P ?ke) ?all"
    by (simp add: get_or_create_def snoc.IH)
  have srtb: "sorted (map timestamp (get_or_create (buckets (inserts S)) ?ke))"
    unfolding goc by (rule sorted_filter) (rule srt)
  have all': "sort_key timestamp (rev (S @ [e])) = insort_key timestamp e ?all" by simp
  have b: "buckets (inserts (S @ [e])) =
      (buckets (inserts S))(?ke \<mapsto> insort_key timestamp e (filter (?P ?ke) ?all))"
    unfolding inserts_snoc buckets_insert_entry_sorted[OF srtb] goc ..
  show ?case
  proof (cases "k = ?ke")
    case True
    have "filter (?P k) (insort_key timestamp e ?all) = insort_key timestamp e (filter (?P k) ?all)"
      using True by (simp add: filter_insort[OF srt])
    moreover have "insort_key timestamp e (filter (?P k) ?all) \<noteq> []"
      by (metis insort_not_Nil)
    ultimately show ?thesis unfolding all' b using True by simp
  next
    case False
    then have "filter (?P k) (insort_key timestamp e ?all) = filter (?P k) ?all"
      by (simp add: filter_insort_triv)
    with False snoc.IH[of k] show ?thesis unfolding all' b by simp
  qed
qed

lemma bucket_of_inserts:
  "get_or_create (buckets (inserts S)) k =
     filter (\<lambda>e. getBucketKey (timestamp e) = k) (sort_key timestamp (rev S))"
  by (simp add: get_or_create_def buckets_inserts)

lemma bucket_of_inserts_sorted:
  "buckets (inserts S) k = Some b \<Longrightarrow> sorted (map timestamp b)"
  by (auto simp: buckets_inserts sorted_filter split: if_splits)

lemma bucket_of_inserts_Some:
  "buckets (inserts S) k = Some b \<Longrightarrow>
   b = filter (\<lambda>e. getBucketKey (timestamp e) = k) (sort_key timestamp (rev S))"
  by (auto simp: buckets_inserts split: if_splits)

lemma findInsertIndex_loop_Nil: "findInsertIndex_loop [] e 0 0 = 0"
  by (subst findInsertIndex_loop.simps) simp

text \<open>
  C3, as the code has it: \<open>findInsertIndex\<close> finds the first position whose timestamp is
  not below the new one. In a bucket sorted by timestamp, \<open>insert(e)\<close> puts \<open>e\<close> after the
  entries with a smaller timestamp and in front of all the others, those with the
  timestamp of \<open>e\<close> included. So after any sequence of inserts the entries of a bucket that
  share a timestamp are in last-inserted-first order.
\<close>

theorem insert_entry_before_equal_timestamps:
  assumes "sorted (map timestamp (get_or_create (buckets s) (getBucketKey (timestamp e))))"
  shows "buckets (insert_entry s e) (getBucketKey (timestamp e)) =
       Some (filter (\<lambda>x. timestamp x < timestamp e)
               (get_or_create (buckets s) (getBucketKey (timestamp e))) @
             e # filter (\<lambda>x. timestamp e \<le> timestamp x)
               (get_or_create (buckets s) (getBucketKey (timestamp e)))) \<and>
     filter (\<lambda>x. timestamp x = t) (get_or_create (buckets (inserts S)) (getBucketKey t)) =
       rev (filter (\<lambda>x. timestamp x = t) S)"
proof
  show "buckets (insert_entry s e) (getBucketKey (timestamp e)) =
       Some (filter (\<lambda>x. timestamp x < timestamp e)
               (get_or_create (buckets s) (getBucketKey (timestamp e))) @
             e # filter (\<lambda>x. timestamp e \<le> timestamp x)
               (get_or_create (buckets s) (getBucketKey (timestamp e))))"
    unfolding buckets_insert_entry_sorted[OF assms] insort_key_takeWhile[of timestamp e]
      sorted_takeWhile_filter[OF assms] sorted_dropWhile_filter[OF assms]
    by simp
next
  have "filter (\<lambda>x. timestamp x = t) (get_or_create (buckets (inserts S)) (getBucketKey t)) =
      filter (\<lambda>x. getBucketKey (timestamp x) = getBucketKey t \<and> timestamp x = t)
        (sort_key timestamp (rev S))"
    unfolding bucket_of_inserts by simp
  also have "\<dots> = filter (\<lambda>x. timestamp x = t) (sort_key timestamp (rev S))"
    by (rule filter_cong) auto
  also have "\<dots> = filter (\<lambda>x. timestamp x = t) (rev S)"
    by (rule sort_key_stable)
  also have "\<dots> = rev (filter (\<lambda>x. timestamp x = t) S)"
    by (simp add: rev_filter)
  finally show "filter (\<lambda>x. timestamp x = t) (get_or_create (buckets (inserts S)) (getBucketKey t)) =
       rev (filter (\<lambda>x. timestamp x = t) S)" .
qed

lemma inserts_two:
  "buckets (inserts [trade 1000 ''A'', trade 1000 ''B'']) 0 =
     Some [trade 1000 ''B'', trade 1000 ''A'']"
  by (simp add: buckets_inserts getBucketKey_def BUCKET_SIZE_MS_def trade_def)

theorem insert_entry_before_equal_timestamps_witness:
  "buckets (insert_entry (inserts [trade 1000 ''A'', trade 2000 ''C'']) (trade 1000 ''B'')) 0 =
     Some [trade 1000 ''B'', trade 1000 ''A'', trade 2000 ''C''] \<and>
   filter (\<lambda>x. timestamp x = 1000)
     (get_or_create (buckets (inserts [trade 1000 ''A'', trade 2000 ''C'', trade 1000 ''B''])) 0) =
     [trade 1000 ''B'', trade 1000 ''A'']"
proof -
  have b: "get_or_create (buckets (inserts [trade 1000 ''A'', trade 2000 ''C''])) 0 =
      [trade 1000 ''A'', trade 2000 ''C'']"
    by (simp add: bucket_of_inserts getBucketKey_def BUCKET_SIZE_MS_def trade_def)
  have k: "getBucketKey (timestamp (trade 1000 ''B'')) = 0" "getBucketKey 1000 = 0"
    by (simp_all add: getBucketKey_def BUCKET_SIZE_MS_def trade_def)
  have s: "sorted (map timestamp (get_or_create (buckets (inserts [trade 1000 ''A'', trade 2000 ''C'']))
      (getBucketKey (timestamp (trade 1000 ''B'')))))"
    unfolding k b by (simp add: trade_def)
  from insert_entry_before_equal_timestamps[OF s, of 1000
      "[trade 1000 ''A'', trade 2000 ''C'', trade 1000 ''B'']"]
  show ?thesis unfolding k b by (simp add: trade_def)
qed

text \<open>
  The claim as stated fails: after \<open>insert(A)\<close> and \<open>insert(B)\<close> at the same timestamp the
  bucket is \<open>[B, A]\<close>; \<open>B\<close> was placed in front of the entry that was there.
\<close>

theorem insert_entry_tie_goes_first:
  "buckets (insert_entry (insert_entry new_store (trade 1000 ''A'')) (trade 1000 ''B''))
     (getBucketKey 1000) = Some [trade 1000 ''B'', trade 1000 ''A''] \<and>
   timestamp (trade 1000 ''A'') = timestamp (trade 1000 ''B'')"
proof -
  have "insert_entry (insert_entry new_store (trade 1000 ''A'')) (trade 1000 ''B'') =
      inserts [trade 1000 ''A'', trade 1000 ''B'']"
    by (simp add: inserts_def)
  moreover have "getBucketKey 1000 = 0" by (simp add: getBucketKey_def BUCKET_SIZE_MS_def)
  ultimately show ?thesis using inserts_two by (simp add: trade_def)
qed

subsection \<open>The invariants of the buckets\<close>

lemma set_splice_at: "i \<le> length xs \<Longrightarrow> set (splice_at i x xs) = insert x (set xs)"
proof -
  assume "i \<le> length xs"
  have "set (take i xs) \<union> set (drop i xs) = set xs"
    by (metis append_take_drop_id set_append)
  then show ?thesis by (auto simp: splice_at_def)
qed

lemma findInsertIndex_loop_le:
  "low \<le> high \<Longrightarrow> findInsertIndex_loop b e low high \<le> high"
proof (induction b e low high rule: findInsertIndex_loop.induct)
  case (1 bucket entry low high)
  show ?case
  proof (cases "low < high")
    case False
    with "1.prems" show ?thesis by (subst findInsertIndex_loop.simps) simp
  next
    case True
    show ?thesis
    proof (cases "timestamp (bucket ! ((low + high) div 2)) < timestamp entry")
      case lt: True
      from True have "(low + high) div 2 + 1 \<le> high" by linarith
      from "1.IH"(1)[OF True lt this] True lt show ?thesis
        by (subst findInsertIndex_loop.simps) simp
    next
      case ge: False
      from True have "low \<le> (low + high) div 2" "(low + high) div 2 \<le> high" by linarith+
      with "1.IH"(2)[OF True ge] True ge show ?thesis
        by (subst findInsertIndex_loop.simps) simp
    qed
  qed
qed

lemma findInsertIndex_le: "findInsertIndex b e \<le> length b"
  unfolding findInsertIndex_def by (rule findInsertIndex_loop_le) simp

lemma keyed_get_or_create:
  "keyed s \<Longrightarrow> x \<in> set (get_or_create (buckets s) k) \<Longrightarrow> getBucketKey (timestamp x) = k"
  by (cases "buckets s k") (auto simp: keyed_def get_or_create_def)

lemma keyed_insert_entry:
  assumes "keyed s"
  shows "keyed (insert_entry s e)"
  unfolding keyed_def
proof (intro allI impI)
  fix k b x
  assume b: "buckets (insert_entry s e) k = Some b" and x: "x \<in> set b"
  show "getBucketKey (timestamp x) = k"
  proof (cases "k = getBucketKey (timestamp e)")
    case True
    with b have "b = splice_at (findInsertIndex (get_or_create (buckets s) k) e) e
        (get_or_create (buckets s) k)"
      by (simp add: buckets_insert_entry)
    with x have "x = e \<or> x \<in> set (get_or_create (buckets s) k)"
      by (simp add: set_splice_at[OF findInsertIndex_le])
    with True keyed_get_or_create[OF assms] show ?thesis by blast
  next
    case False
    with b have "buckets s k = Some b" by (simp add: buckets_insert_entry)
    with assms x show ?thesis unfolding keyed_def by blast
  qed
qed

lemma buckets_push_entry:
  "buckets (push_entry s e) =
     (buckets s)(getBucketKey (timestamp e) \<mapsto>
        get_or_create (buckets s) (getBucketKey (timestamp e)) @ [e])"
  by (simp add: push_entry_def Let_def)

lemma keyed_push_entry:
  assumes "keyed s"
  shows "keyed (push_entry s e)"
  unfolding keyed_def
proof (intro allI impI)
  fix k b x
  assume b: "buckets (push_entry s e) k = Some b" and x: "x \<in> set b"
  show "getBucketKey (timestamp x) = k"
  proof (cases "k = getBucketKey (timestamp e)")
    case True
    with b have "b = get_or_create (buckets s) k @ [e]"
      by (simp add: buckets_push_entry)
    with x have "x = e \<or> x \<in> set (get_or_create (buckets s) k)" by auto
    with True keyed_get_or_create[OF assms] show ?thesis by blast
  next
    case False
    with b have "buckets s k = Some b" by (simp add: buckets_push_entry)
    with assms x show ?thesis unfolding keyed_def by blast
  qed
qed

lemma keyed_foldl_push: "keyed s \<Longrightarrow> keyed (foldl push_entry s es)"
  by (induction es arbitrary: s) (simp_all add: keyed_push_entry)

lemma keyed_insertBatch: "keyed s \<Longrightarrow> keyed (insertBatch s es)"
  using keyed_foldl_push[of s "sort_key timestamp es"]
  by (simp add: insertBatch_def Let_def keyed_def)

lemma keyed_reachable: "reachable s \<Longrightarrow> keyed s"
proof (induction rule: reachable.induct)
  case reachable_new
  show ?case by (simp add: keyed_def new_store_def)
next
  case (reachable_insert s e)
  then show ?case by (simp add: keyed_insert_entry)
next
  case (reachable_insertBatch s es)
  then show ?case by (simp add: keyed_insertBatch)
next
  case (reachable_clear s)
  show ?case by (simp add: keyed_def clear_def)
next
  case (reachable_subscribe s cb)
  then show ?case by (simp add: keyed_def subscribe_def)
next
  case (reachable_subscribeBatch s cb)
  then show ?case by (simp add: keyed_def subscribeBatch_def)
qed

text \<open>
  The part of C1 that holds of the code: in every state the store can reach by \<open>insert\<close>,
  \<open>insertBatch\<close>, \<open>clear\<close> and the subscriptions, every entry \<open>e\<close> of bucket \<open>k\<close> has
  \<open>floor(e.timestamp / 60000) = k\<close>.
\<close>

theorem reachable_bucket_keys:
  assumes "reachable s" and "buckets s k = Some b" and "e \<in> set b"
  shows "timestamp e div 60000 = k"
  using keyed_reachable[OF assms(1)] assms(2,3)
  unfolding keyed_def getBucketKey_def BUCKET_SIZE_MS_def by blast

lemma insertBatch_after_insert:
  "buckets (insertBatch (insert_entry new_store (trade 2000 ''A'')) [trade 1000 ''B'']) 0 =
     Some [trade 2000 ''A'', trade 1000 ''B'']"
  by (simp add: insertBatch_def push_entry_def insert_entry_def new_store_def
      get_or_create_def getBucketKey_def BUCKET_SIZE_MS_def trade_def splice_at_def Let_def)

theorem reachable_bucket_keys_witness:
  "timestamp (trade 1000 ''B'') div 60000 = 0"
proof -
  have r: "reachable (insertBatch (insert_entry new_store (trade 2000 ''A'')) [trade 1000 ''B''])"
    by (intro reachable.intros)
  show ?thesis
    by (rule reachable_bucket_keys[OF r insertBatch_after_insert]) simp
qed

text \<open>
  The other part of C1 holds of \<open>insert\<close> and \<open>clear\<close>: they keep every bucket sorted by
  timestamp.
\<close>

theorem insert_entry_keeps_sorted:
  assumes "\<forall>k b. buckets s k = Some b \<longrightarrow> sorted (map timestamp b)"
  shows "(\<forall>k b. buckets (insert_entry s e) k = Some b \<longrightarrow> sorted (map timestamp b)) \<and>
     (\<forall>k b. buckets (clear s) k = Some b \<longrightarrow> sorted (map timestamp b))"
proof
  have srt: "sorted (map timestamp (get_or_create (buckets s) k))" for k
    using assms by (cases "buckets s k") (simp_all add: get_or_create_def)
  show "\<forall>k b. buckets (insert_entry s e) k = Some b \<longrightarrow> sorted (map timestamp b)"
  proof (intro allI impI)
    fix k b assume b: "buckets (insert_entry s e) k = Some b"
    show "sorted (map timestamp b)"
    proof (cases "k = getBucketKey (timestamp e)")
      case True
      with b have "b = insort_key timestamp e (get_or_create (buckets s) k)"
        by (simp add: buckets_insert_entry_sorted[OF srt])
      with srt[of k] show ?thesis by (simp add: sorted_insort_key)
    next
      case False
      with b have "buckets s k = Some b" by (simp add: buckets_insert_entry)
      with assms show ?thesis by blast
    qed
  qed
next
  show "\<forall>k b. buckets (clear s) k = Some b \<longrightarrow> sorted (map timestamp b)"
    by (simp add: clear_def)
qed

theorem insert_entry_keeps_sorted_witness:
  "sorted (map timestamp [trade 1000 ''B'', trade 1000 ''A''])"
proof -
  have a: "\<forall>k b. buckets (inserts [trade 1000 ''A'']) k = Some b \<longrightarrow> sorted (map timestamp b)"
    using bucket_of_inserts_sorted by blast
  have "buckets (insert_entry (inserts [trade 1000 ''A'']) (trade 1000 ''B'')) 0 =
      Some [trade 1000 ''B'', trade 1000 ''A'']"
    using inserts_two by (simp add: inserts_def)
  with insert_entry_keeps_sorted[OF a, of "trade 1000 ''B''"] show ?thesis by blast
qed

text \<open>
  C1 fails for \<open>insertBatch\<close>, which appends to a bucket without looking at what it holds:
  after \<open>insert\<close> of an entry at \<open>2000\<close>, \<open>insertBatch\<close> of an entry at \<open>1000\<close> leaves bucket
  \<open>0\<close> as \<open>[2000, 1000]\<close>, which is not sorted.
\<close>

theorem insertBatch_appends_out_of_order:
  "reachable (insertBatch (insert_entry new_store (trade 2000 ''A'')) [trade 1000 ''B'']) \<and>
   buckets (insertBatch (insert_entry new_store (trade 2000 ''A'')) [trade 1000 ''B'']) 0 =
     Some [trade 2000 ''A'', trade 1000 ''B''] \<and>
   \<not> sorted (map timestamp [trade 2000 ''A'', trade 1000 ''B''])"
proof -
  have "reachable (insertBatch (insert_entry new_store (trade 2000 ''A'')) [trade 1000 ''B''])"
    by (intro reachable.intros)
  moreover have "\<not> sorted (map timestamp [trade 2000 ''A'', trade 1000 ''B''])"
    by (simp add: trade_def)
  ultimately show ?thesis using insertBatch_after_insert by simp
qed

subsection \<open>getAtTime on a bucket sorted by timestamp\<close>

lemma findIndexAtTime_loop_inv:
  assumes "sorted (map timestamp b)" "0 \<le> low" "high < int (length b)"
    "\<forall>j. int j < low \<longrightarrow> timestamp (b ! j) < t"
    "\<forall>j. high < int j \<and> j < length b \<longrightarrow> t < timestamp (b ! j)"
  shows "(findIndexAtTime_loop b t low high = -1 \<and> (\<forall>j<length b. timestamp (b ! j) \<noteq> t)) \<or>
    (0 \<le> findIndexAtTime_loop b t low high \<and> findIndexAtTime_loop b t low high < int (length b) \<and>
     timestamp (b ! nat (findIndexAtTime_loop b t low high)) = t)"
  using assms
proof (induction b t low high rule: findIndexAtTime_loop.induct)
  case (1 bucket ts low high)
  let ?mid = "(low + high) div 2"
  note srt = "1.prems"(1) and l0 = "1.prems"(2) and hl = "1.prems"(3)
    and below = "1.prems"(4) and above = "1.prems"(5)
  show ?case
  proof (cases "low \<le> high")
    case False
    have r: "findIndexAtTime_loop bucket ts low high = -1"
      using False by (subst findIndexAtTime_loop.simps) simp
    have "\<forall>j<length bucket. timestamp (bucket ! j) \<noteq> ts"
    proof (intro allI impI)
      fix j assume j: "j < length bucket"
      show "timestamp (bucket ! j) \<noteq> ts"
      proof (cases "int j < low")
        case True
        with below have "timestamp (bucket ! j) < ts" by blast
        then show ?thesis by simp
      next
        case nl: False
        with False have "high < int j" by linarith
        with above j have "ts < timestamp (bucket ! j)" by blast
        then show ?thesis by simp
      qed
    qed
    with r show ?thesis by simp
  next
    case True
    then have mid: "low \<le> ?mid" "?mid \<le> high" by linarith+
    with l0 hl have mid0: "0 \<le> ?mid" and midlen: "nat ?mid < length bucket" by linarith+
    show ?thesis
    proof (cases "timestamp (bucket ! nat ?mid) = ts")
      case eq: True
      have r: "findIndexAtTime_loop bucket ts low high = ?mid"
        using True eq by (subst findIndexAtTime_loop.simps) simp
      have "?mid < int (length bucket)" using mid hl by linarith
      with mid0 eq show ?thesis unfolding r by blast
    next
      case ne: False
      show ?thesis
      proof (cases "timestamp (bucket ! nat ?mid) < ts")
        case lt: True
        have r: "findIndexAtTime_loop bucket ts low high = findIndexAtTime_loop bucket ts (?mid + 1) high"
          using True ne lt by (subst findIndexAtTime_loop.simps) simp
        have b': "\<forall>j. int j < ?mid + 1 \<longrightarrow> timestamp (bucket ! j) < ts"
        proof (intro allI impI)
          fix j assume "int j < ?mid + 1"
          then have "j \<le> nat ?mid" by linarith
          then have "timestamp (bucket ! j) \<le> timestamp (bucket ! nat ?mid)"
            using midlen srt by (rule_tac sorted_nth_le)
          with lt show "timestamp (bucket ! j) < ts" by linarith
        qed
        have "0 \<le> ?mid + 1" using mid0 by linarith
        from "1.IH"(1)[OF True ne lt srt this hl b' above] show ?thesis unfolding r .
      next
        case ge: False
        have r: "findIndexAtTime_loop bucket ts low high = findIndexAtTime_loop bucket ts low (?mid - 1)"
          using True ne ge by (subst findIndexAtTime_loop.simps) simp
        have a': "\<forall>j. ?mid - 1 < int j \<and> j < length bucket \<longrightarrow> ts < timestamp (bucket ! j)"
        proof (intro allI impI)
          fix j assume j: "?mid - 1 < int j \<and> j < length bucket"
          then have "nat ?mid \<le> j" by linarith
          then have "timestamp (bucket ! nat ?mid) \<le> timestamp (bucket ! j)"
            using j srt by (rule_tac sorted_nth_le) auto
          with ge ne show "ts < timestamp (bucket ! j)" by linarith
        qed
        have "?mid - 1 < int (length bucket)" using midlen by linarith
        from "1.IH"(2)[OF True ne ge srt l0 this below a'] show ?thesis unfolding r .
      qed
    qed
  qed
qed

lemma findIndexAtTime_sorted:
  assumes "sorted (map timestamp b)"
  shows "(findIndexAtTime b t = -1 \<and> (\<forall>j<length b. timestamp (b ! j) \<noteq> t)) \<or>
    (0 \<le> findIndexAtTime b t \<and> findIndexAtTime b t < int (length b) \<and>
     timestamp (b ! nat (findIndexAtTime b t)) = t)"
  unfolding findIndexAtTime_def
  by (rule findIndexAtTime_loop_inv[OF assms]) simp_all

lemma collect_at_takeWhile:
  "collect_at b t i res = res @ takeWhile (\<lambda>e. timestamp e = t) (drop i b)"
proof (induction b t i res rule: collect_at.induct)
  case (1 bucket ts i results)
  show ?case
  proof (cases "i < length bucket \<and> timestamp (bucket ! i) = ts")
    case True
    then have d: "drop i bucket = bucket ! i # drop (i + 1) bucket"
      by (simp add: Cons_nth_drop_Suc)
    from "1.IH"[OF True] True show ?thesis
      by (subst collect_at.simps) (simp add: d)
  next
    case False
    have "takeWhile (\<lambda>e. timestamp e = ts) (drop i bucket) = []"
    proof (cases "i < length bucket")
      case True
      with False have "timestamp (bucket ! i) \<noteq> ts" by simp
      with True show ?thesis by (simp add: Cons_nth_drop_Suc[symmetric])
    next
      case False
      then show ?thesis by simp
    qed
    with False show ?thesis by (subst collect_at.simps) auto
  qed
qed

lemma sorted_filter_eq_takeWhile:
  "sorted (map f xs) \<Longrightarrow> \<forall>x\<in>set xs. (t::int) \<le> f x \<Longrightarrow>
   filter (\<lambda>x. f x = t) xs = takeWhile (\<lambda>x. f x = t) xs"
proof (induction xs)
  case Nil
  show ?case by simp
next
  case (Cons x xs)
  show ?case
  proof (cases "f x = t")
    case True
    with Cons show ?thesis by simp
  next
    case False
    with Cons.prems have "\<forall>y\<in>set xs. f y \<noteq> t" by fastforce
    then have "filter (\<lambda>x. f x = t) xs = []" by (simp add: filter_empty_conv)
    with False show ?thesis by simp
  qed
qed

lemma collect_from_hit:
  assumes srt: "sorted (map timestamp b)" and i: "i < length b" and hit: "timestamp (b ! i) = t"
  shows "\<exists>n<length (filter (\<lambda>e. timestamp e = t) b).
     collect_at b t i [] = drop n (filter (\<lambda>e. timestamp e = t) b)"
proof -
  let ?P = "\<lambda>e. timestamp e = t"
  let ?n = "length (filter ?P (take i b))"
  have sd: "sorted (map timestamp (drop i b))"
    using srt by (simp add: drop_map[symmetric] sorted_wrt_drop)
  have ge: "\<forall>x\<in>set (drop i b). t \<le> timestamp x"
  proof
    fix x assume "x \<in> set (drop i b)"
    then obtain j where j: "j < length (drop i b)" "x = drop i b ! j"
      by (auto simp: in_set_conv_nth)
    then have "x = b ! (i + j)" "i + j < length b" by simp_all
    with sorted_nth_le[OF srt, of i "i + j"] hit show "t \<le> timestamp x" by simp
  qed
  have f: "filter ?P (drop i b) = takeWhile ?P (drop i b)"
    by (rule sorted_filter_eq_takeWhile[OF sd ge])
  have split: "filter ?P b = filter ?P (take i b) @ filter ?P (drop i b)"
    by (metis append_take_drop_id filter_append)
  have "b ! i \<in> set (drop i b)"
    using i by (metis Cons_nth_drop_Suc list.set_intros(1))
  with hit have "filter ?P (drop i b) \<noteq> []" by (auto simp: filter_empty_conv)
  then have "?n < length (filter ?P b)" unfolding split by simp
  moreover have "collect_at b t i [] = drop ?n (filter ?P b)"
    unfolding collect_at_takeWhile split f by simp
  ultimately show ?thesis by blast
qed

lemma getAtTime_sorted_bucket:
  assumes b: "buckets s (getBucketKey t) = Some b" and srt: "sorted (map timestamp b)"
  shows "(filter (\<lambda>e. timestamp e = t) b = [] \<and> getAtTime s t = []) \<or>
     (\<exists>n<length (filter (\<lambda>e. timestamp e = t) b).
        getAtTime s t = drop n (filter (\<lambda>e. timestamp e = t) b))"
proof -
  from findIndexAtTime_sorted[OF srt, of t] show ?thesis
  proof
    assume none: "findIndexAtTime b t = -1 \<and> (\<forall>j<length b. timestamp (b ! j) \<noteq> t)"
    then have "\<forall>x\<in>set b. timestamp x \<noteq> t" by (auto simp: in_set_conv_nth)
    then have "filter (\<lambda>e. timestamp e = t) b = []" by (simp add: filter_empty_conv)
    moreover from none b have "getAtTime s t = []" by (simp add: getAtTime_def)
    ultimately show ?thesis by blast
  next
    assume hit: "0 \<le> findIndexAtTime b t \<and> findIndexAtTime b t < int (length b) \<and>
      timestamp (b ! nat (findIndexAtTime b t)) = t"
    then have "nat (findIndexAtTime b t) < length b" by linarith
    from collect_from_hit[OF srt this] hit obtain n where
      n: "n < length (filter (\<lambda>e. timestamp e = t) b)"
        "collect_at b t (nat (findIndexAtTime b t)) [] = drop n (filter (\<lambda>e. timestamp e = t) b)"
      by blast
    from hit have "findIndexAtTime b t \<noteq> -1" by linarith
    with b n(2) have "getAtTime s t = drop n (filter (\<lambda>e. timestamp e = t) b)"
      by (simp add: getAtTime_def Let_def)
    with n(1) show ?thesis by blast
  qed
qed

lemma bucket_ties_inserts:
  "filter (\<lambda>x. timestamp x = t) (get_or_create (buckets (inserts S)) (getBucketKey t)) =
     rev (filter (\<lambda>x. timestamp x = t) S)"
proof -
  have "filter (\<lambda>x. timestamp x = t) (get_or_create (buckets (inserts S)) (getBucketKey t)) =
      filter (\<lambda>x. getBucketKey (timestamp x) = getBucketKey t \<and> timestamp x = t)
        (sort_key timestamp (rev S))"
    unfolding bucket_of_inserts by simp
  also have "\<dots> = filter (\<lambda>x. timestamp x = t) (sort_key timestamp (rev S))"
    by (rule filter_cong) auto
  also have "\<dots> = filter (\<lambda>x. timestamp x = t) (rev S)"
    by (rule sort_key_stable)
  also have "\<dots> = rev (filter (\<lambda>x. timestamp x = t) S)"
    by (simp add: rev_filter)
  finally show ?thesis .
qed

text \<open>
  What \<open>getAtTime\<close> does return after any sequence of inserts. The stored entries with
  timestamp \<open>t\<close> are those inserted at \<open>t\<close>, last inserted first. \<open>getAtTime(t)\<close> returns
  only entries with timestamp \<open>t\<close>, in that stored order: the empty list when there is
  none, and otherwise a non-empty final part of them, from the one the binary search hits
  to the first inserted. It need not return them all, as the evaluation below shows.
\<close>

theorem getAtTime_inserts:
  "(filter (\<lambda>e. timestamp e = t) S = [] \<and> getAtTime (inserts S) t = []) \<or>
   (\<exists>n<length (filter (\<lambda>e. timestamp e = t) S).
      getAtTime (inserts S) t = drop n (rev (filter (\<lambda>e. timestamp e = t) S)))"
proof (cases "buckets (inserts S) (getBucketKey t)")
  case None
  then have "get_or_create (buckets (inserts S)) (getBucketKey t) = []"
    by (simp add: get_or_create_def)
  with bucket_ties_inserts[of t S] have "filter (\<lambda>e. timestamp e = t) S = []" by simp
  moreover from None have "getAtTime (inserts S) t = []" by (simp add: getAtTime_def)
  ultimately show ?thesis by blast
next
  case (Some b)
  then have g: "get_or_create (buckets (inserts S)) (getBucketKey t) = b"
    by (simp add: get_or_create_def)
  have f: "filter (\<lambda>e. timestamp e = t) b = rev (filter (\<lambda>e. timestamp e = t) S)"
    using bucket_ties_inserts[of t S] unfolding g .
  from getAtTime_sorted_bucket[OF Some bucket_of_inserts_sorted[OF Some]] show ?thesis
    unfolding f by simp
qed

lemma inserts_three:
  "buckets (inserts [trade 1000 ''A'', trade 1000 ''B'', trade 1000 ''C'']) 0 =
     Some [trade 1000 ''C'', trade 1000 ''B'', trade 1000 ''A'']"
  by (simp add: buckets_inserts getBucketKey_def BUCKET_SIZE_MS_def trade_def)

text \<open>
  C4 fails on the code: \<open>getAtTime\<close> starts collecting at whichever entry with the
  timestamp the binary search of \<open>findIndexAtTime\<close> hits, and never walks back to the first
  one. After \<open>insert\<close> of \<open>A\<close>, \<open>B\<close> and \<open>C\<close> at one timestamp the bucket is \<open>[C, B, A]\<close>,
  the search hits the middle entry and \<open>getAtTime\<close> returns \<open>[B, A]\<close>: \<open>C\<close> is missing.
  Two entries are enough when the bucket holds more: after \<open>insert\<close> of \<open>A\<close> and \<open>B\<close> at
  \<open>1000\<close> and of \<open>X\<close> at \<open>1500\<close> the bucket is \<open>[B, A, X]\<close> and \<open>getAtTime(1000)\<close> returns
  \<open>[A]\<close> alone.
\<close>

theorem getAtTime_three_equal:
  "getAtTime (inserts [trade 1000 ''A'', trade 1000 ''B'', trade 1000 ''C'']) 1000 =
     [trade 1000 ''B'', trade 1000 ''A''] \<and>
   getAtTime (inserts [trade 1000 ''A'', trade 1000 ''B'', trade 1500 ''X'']) 1000 =
     [trade 1000 ''A'']"
proof
  have i: "findIndexAtTime [trade 1000 ''C'', trade 1000 ''B'', trade 1000 ''A''] 1000 = 1"
    unfolding findIndexAtTime_def
    by (subst findIndexAtTime_loop.simps) (simp add: trade_def)
  have c: "collect_at [trade 1000 ''C'', trade 1000 ''B'', trade 1000 ''A''] 1000 (Suc 0) [] =
      [trade 1000 ''B'', trade 1000 ''A'']"
    unfolding collect_at_takeWhile by (simp add: trade_def)
  have k: "getBucketKey 1000 = 0" by (simp add: getBucketKey_def BUCKET_SIZE_MS_def)
  show "getAtTime (inserts [trade 1000 ''A'', trade 1000 ''B'', trade 1000 ''C'']) 1000 =
     [trade 1000 ''B'', trade 1000 ''A'']"
    unfolding getAtTime_def k inserts_three by (simp add: i c)
next
  have b: "buckets (inserts [trade 1000 ''A'', trade 1000 ''B'', trade 1500 ''X'']) 0 =
      Some [trade 1000 ''B'', trade 1000 ''A'', trade 1500 ''X'']"
    by (simp add: buckets_inserts getBucketKey_def BUCKET_SIZE_MS_def trade_def)
  have i: "findIndexAtTime [trade 1000 ''B'', trade 1000 ''A'', trade 1500 ''X''] 1000 = 1"
    unfolding findIndexAtTime_def
    by (subst findIndexAtTime_loop.simps) (simp add: trade_def)
  have c: "collect_at [trade 1000 ''B'', trade 1000 ''A'', trade 1500 ''X''] 1000 (Suc 0) [] =
      [trade 1000 ''A'']"
    unfolding collect_at_takeWhile by (simp add: trade_def)
  have k: "getBucketKey 1000 = 0" by (simp add: getBucketKey_def BUCKET_SIZE_MS_def)
  show "getAtTime (inserts [trade 1000 ''A'', trade 1000 ''B'', trade 1500 ''X'']) 1000 =
     [trade 1000 ''A'']"
    unfolding getAtTime_def k b by (simp add: i c)
qed

subsection \<open>getNearest on buckets sorted by timestamp\<close>

lemma findFirstAtOrAfter_sorted:
  assumes "sorted (map timestamp b)"
  shows "findFirstAtOrAfter b t \<le> length b \<and>
    (\<forall>j<findFirstAtOrAfter b t. timestamp (b ! j) < t) \<and>
    (\<forall>j. findFirstAtOrAfter b t \<le> j \<and> j < length b \<longrightarrow> t \<le> timestamp (b ! j))"
  unfolding findFirstAtOrAfter_def
  by (rule findFirstAtOrAfter_loop_inv[OF assms]) simp_all

text \<open>Every entry of a sorted bucket is at least as far from \<open>t\<close> as one of the two candidates.\<close>

lemma candidates_dominate:
  assumes srt: "sorted (map timestamp b)" and x: "x \<in> set b"
  shows "(findFirstAtOrAfter b t < length b \<and> t \<le> timestamp x \<and>
       \<bar>timestamp (b ! findFirstAtOrAfter b t) - t\<bar> \<le> \<bar>timestamp x - t\<bar>) \<or>
     (0 < findFirstAtOrAfter b t \<and> timestamp x < t \<and>
       \<bar>timestamp (b ! (findFirstAtOrAfter b t - 1)) - t\<bar> \<le> \<bar>timestamp x - t\<bar>)"
proof -
  let ?i = "findFirstAtOrAfter b t"
  note p = findFirstAtOrAfter_sorted[OF srt, of t]
  from x obtain j where j: "j < length b" "x = b ! j" by (auto simp: in_set_conv_nth)
  show ?thesis
  proof (cases "t \<le> timestamp x")
    case True
    have "\<not> j < ?i"
    proof
      assume "j < ?i"
      with p j have "timestamp x < t" by blast
      with True show False by simp
    qed
    then have ij: "?i \<le> j" by simp
    with j have il: "?i < length b" by simp
    from p il have "t \<le> timestamp (b ! ?i)" by blast
    moreover from sorted_nth_le[OF srt ij j(1)] j have "timestamp (b ! ?i) \<le> timestamp x" by simp
    ultimately have "\<bar>timestamp (b ! ?i) - t\<bar> \<le> \<bar>timestamp x - t\<bar>" by linarith
    with il True show ?thesis by blast
  next
    case False
    have "\<not> ?i \<le> j"
    proof
      assume "?i \<le> j"
      with p j have "t \<le> timestamp x" by blast
      with False show False by simp
    qed
    then have ji: "j \<le> ?i - 1" "0 < ?i" by linarith+
    with p have "timestamp (b ! (?i - 1)) < t" by simp
    moreover from ji p have "?i - 1 < length b" by linarith
    from sorted_nth_le[OF srt ji(1) this] j have "timestamp x \<le> timestamp (b ! (?i - 1))" by simp
    ultimately have "\<bar>timestamp (b ! (?i - 1)) - t\<bar> \<le> \<bar>timestamp x - t\<bar>" by linarith
    with ji False show ?thesis by simp
  qed
qed

lemma best_consider_candidate:
  assumes "best A t tol st"
  shows "best (insert c A) t tol (consider_candidate t tol st (Some c))"
proof (cases "fst st")
  case None
  with assms have m: "snd st = None" and far: "\<forall>x\<in>A. tol < \<bar>timestamp x - t\<bar>"
    by (simp_all add: best_def)
  show ?thesis
  proof (cases "\<bar>timestamp c - t\<bar> \<le> tol")
    case True
    with m have "consider_candidate t tol st (Some c) = (Some c, Some \<bar>timestamp c - t\<bar>)"
      by (simp add: consider_candidate_def closer_def)
    with True far show ?thesis by (auto simp: best_def)
  next
    case False
    then have "consider_candidate t tol st (Some c) = st"
      by (simp add: consider_candidate_def)
    with False None m far show ?thesis by (auto simp: best_def)
  qed
next
  case (Some e)
  with assms have m: "snd st = Some \<bar>timestamp e - t\<bar>" and eA: "e \<in> A"
    and near: "\<bar>timestamp e - t\<bar> \<le> tol"
    and least: "\<forall>x\<in>A. \<bar>timestamp e - t\<bar> \<le> \<bar>timestamp x - t\<bar>"
    by (simp_all add: best_def)
  show ?thesis
  proof (cases "\<bar>timestamp c - t\<bar> \<le> tol \<and> \<bar>timestamp c - t\<bar> < \<bar>timestamp e - t\<bar>")
    case True
    with m have "consider_candidate t tol st (Some c) = (Some c, Some \<bar>timestamp c - t\<bar>)"
      by (simp add: consider_candidate_def closer_def)
    moreover from True least have "\<forall>x\<in>A. \<bar>timestamp c - t\<bar> \<le> \<bar>timestamp x - t\<bar>"
      by fastforce
    ultimately show ?thesis using True by (simp add: best_def)
  next
    case False
    with m have r: "consider_candidate t tol st (Some c) = st"
      by (auto simp: consider_candidate_def closer_def)
    from False near have "\<bar>timestamp e - t\<bar> \<le> \<bar>timestamp c - t\<bar>" by linarith
    with Some m eA near least show ?thesis unfolding r by (simp add: best_def)
  qed
qed

lemma best_mono:
  assumes "best A t tol st" and "A \<subseteq> B"
    and "\<forall>x\<in>B. \<exists>y\<in>A. \<bar>timestamp y - t\<bar> \<le> \<bar>timestamp x - t\<bar>"
  shows "best B t tol st"
proof (cases "fst st")
  case None
  with assms(1) have m: "snd st = None" and far: "\<forall>x\<in>A. tol < \<bar>timestamp x - t\<bar>"
    by (simp_all add: best_def)
  have "\<forall>x\<in>B. tol < \<bar>timestamp x - t\<bar>"
  proof
    fix x assume "x \<in> B"
    with assms(3) obtain y where "y \<in> A" "\<bar>timestamp y - t\<bar> \<le> \<bar>timestamp x - t\<bar>" by blast
    with far show "tol < \<bar>timestamp x - t\<bar>" by fastforce
  qed
  with None m show ?thesis by (simp add: best_def)
next
  case (Some e)
  with assms(1) have m: "snd st = Some \<bar>timestamp e - t\<bar>" and eA: "e \<in> A"
    and near: "\<bar>timestamp e - t\<bar> \<le> tol"
    and least: "\<forall>x\<in>A. \<bar>timestamp e - t\<bar> \<le> \<bar>timestamp x - t\<bar>"
    by (simp_all add: best_def)
  have "\<forall>x\<in>B. \<bar>timestamp e - t\<bar> \<le> \<bar>timestamp x - t\<bar>"
  proof
    fix x assume "x \<in> B"
    with assms(3) obtain y where "y \<in> A" "\<bar>timestamp y - t\<bar> \<le> \<bar>timestamp x - t\<bar>" by blast
    with least show "\<bar>timestamp e - t\<bar> \<le> \<bar>timestamp x - t\<bar>" by fastforce
  qed
  with Some m eA near assms(2) show ?thesis by (auto simp: best_def)
qed

lemma consider_candidate_None [simp]: "consider_candidate t tol st None = st"
  by (simp add: consider_candidate_def)

lemma best_candidates:
  assumes st: "best A t tol st" and srt: "sorted (map timestamp b)"
  shows "best (A \<union> set b) t tol
     (foldl (consider_candidate t tol) st
        [if findFirstAtOrAfter b t < length b then Some (b ! findFirstAtOrAfter b t) else None,
         if 0 < findFirstAtOrAfter b t then Some (b ! (findFirstAtOrAfter b t - 1)) else None])"
proof -
  let ?i = "findFirstAtOrAfter b t"
  let ?C = "(if ?i < length b then {b ! ?i} else {}) \<union> (if 0 < ?i then {b ! (?i - 1)} else {})"
  let ?st1 = "consider_candidate t tol st (if ?i < length b then Some (b ! ?i) else None)"
  let ?st2 = "consider_candidate t tol ?st1 (if 0 < ?i then Some (b ! (?i - 1)) else None)"
  have il: "?i \<le> length b" using findFirstAtOrAfter_sorted[OF srt, of t] by blast
  have 1: "best (A \<union> (if ?i < length b then {b ! ?i} else {})) t tol ?st1"
    using best_consider_candidate[OF st, of "b ! ?i"] st by simp
  have 2: "best (A \<union> ?C) t tol ?st2"
  proof (cases "0 < ?i")
    case True
    from best_consider_candidate[OF 1, of "b ! (?i - 1)"] True show ?thesis
      by (simp add: Un_commute insert_commute Un_assoc)
  next
    case False
    with 1 show ?thesis by simp
  qed
  have sub: "A \<union> ?C \<subseteq> A \<union> set b"
    using il by (auto simp: nth_mem) 
  have dom: "\<forall>x\<in>A \<union> set b. \<exists>y\<in>A \<union> ?C. \<bar>timestamp y - t\<bar> \<le> \<bar>timestamp x - t\<bar>"
  proof
    fix x assume "x \<in> A \<union> set b"
    then show "\<exists>y\<in>A \<union> ?C. \<bar>timestamp y - t\<bar> \<le> \<bar>timestamp x - t\<bar>"
    proof
      assume "x \<in> A"
      then show ?thesis by blast
    next
      assume "x \<in> set b"
      from candidates_dominate[OF srt this, of t] show ?thesis by auto
    qed
  qed
  from best_mono[OF 2 sub dom] show ?thesis by simp
qed

lemma best_consider_bucket:
  assumes st: "best A t tol st" and srt: "\<forall>b. adj = Some b \<longrightarrow> sorted (map timestamp b)"
  shows "best (A \<union> (case adj of None \<Rightarrow> {} | Some b \<Rightarrow> set b)) t tol
     (consider_bucket t tol st adj)"
proof (cases adj)
  case None
  with st show ?thesis by (simp add: consider_bucket_def)
next
  case (Some b)
  with srt have s: "sorted (map timestamp b)" by blast
  show ?thesis
  proof (cases "b = []")
    case True
    with st Some show ?thesis by (simp add: consider_bucket_def)
  next
    case False
    with Some best_candidates[OF st s] show ?thesis
      by (simp add: consider_bucket_def Let_def)
  qed
qed

lemma best_start: "best {} t tol (None, None)"
  by (simp add: best_def)

lemma nearest_in_bucket_fold:
  "nearest_in_bucket b t tol =
     fst (foldl (consider_candidate t tol) (None, None)
        [if findFirstAtOrAfter b t < length b then Some (b ! findFirstAtOrAfter b t) else None,
         if 0 < findFirstAtOrAfter b t then Some (b ! (findFirstAtOrAfter b t - 1)) else None])"
  by (auto simp: nearest_in_bucket_def Let_def consider_candidate_def closer_def)

lemma nearest_in_bucket_best:
  assumes "sorted (map timestamp b)"
  shows "\<exists>m. best (set b) t tol (nearest_in_bucket b t tol, m)"
proof -
  from best_candidates[OF best_start assms, of t tol] show ?thesis
    unfolding nearest_in_bucket_fold
    by (metis prod.collapse sup_bot.left_neutral)
qed

lemma sorted_buckets_inserts: "sorted_buckets (inserts S)"
  unfolding sorted_buckets_def using bucket_of_inserts_sorted by blast

lemma sorted_buckets_get_or_create:
  "sorted_buckets s \<Longrightarrow> sorted (map timestamp (get_or_create (buckets s) k))"
  by (cases "buckets s k") (simp_all add: sorted_buckets_def get_or_create_def)

text \<open>The search in the bucket of the timestamp: the nearest of its entries, if within the tolerance.\<close>

lemma getNearest_found:
  assumes "sorted_buckets s"
  shows "\<exists>found m. best (bucket_entries s (getBucketKey t)) t tol (found, m) \<and>
     getNearest s t tol =
       (case found of
          Some e \<Rightarrow> Some e
        | None \<Rightarrow> fst (foldl (consider_bucket t tol) (None, None)
            [buckets s (getBucketKey t - 1), buckets s (getBucketKey t + 1)]))"
proof (cases "buckets s (getBucketKey t)")
  case None
  then have "bucket_entries s (getBucketKey t) = {}"
    by (simp add: bucket_entries_def get_or_create_def)
  with None best_start[of t tol] show ?thesis
    by (intro exI[of _ None] exI[of _ None]) (simp add: getNearest_def Let_def)
next
  case (Some b)
  then have be: "bucket_entries s (getBucketKey t) = set b"
    by (simp add: bucket_entries_def get_or_create_def)
  show ?thesis
  proof (cases "b = []")
    case True
    with Some be best_start[of t tol] show ?thesis
      by (intro exI[of _ None] exI[of _ None]) (simp add: getNearest_def Let_def)
  next
    case False
    from assms Some have "sorted (map timestamp b)" by (simp add: sorted_buckets_def)
    from nearest_in_bucket_best[OF this, of t tol] obtain m where
      "best (set b) t tol (nearest_in_bucket b t tol, m)" by blast
    with Some False be show ?thesis
      by (intro exI[of _ "nearest_in_bucket b t tol"] exI[of _ m]) (simp add: getNearest_def Let_def)
  qed
qed

text \<open>The search in the two adjacent buckets: the nearest of their entries, if within the tolerance.\<close>

lemma adjacent_best:
  assumes "sorted_buckets s"
  shows "best (bucket_entries s (k - 1) \<union> bucket_entries s (k + 1)) t tol
     (foldl (consider_bucket t tol) (None, None) [buckets s (k - 1), buckets s (k + 1)])"
proof -
  have e: "(case buckets s j of None \<Rightarrow> {} | Some b \<Rightarrow> set b) = bucket_entries s j" for j
    by (cases "buckets s j") (simp_all add: bucket_entries_def get_or_create_def)
  have s: "\<forall>b. buckets s j = Some b \<longrightarrow> sorted (map timestamp b)" for j
    using assms by (simp add: sorted_buckets_def)
  from best_consider_bucket[OF best_start s[of "k - 1"], of t tol]
  have 1: "best (bucket_entries s (k - 1)) t tol
      (consider_bucket t tol (None, None) (buckets s (k - 1)))"
    by (simp add: e)
  from best_consider_bucket[OF 1 s[of "k + 1"]] show ?thesis by (simp add: e)
qed

lemma best_Some:
  "best A t tol (Some e, m) \<Longrightarrow>
   e \<in> A \<and> \<bar>timestamp e - t\<bar> \<le> tol \<and> (\<forall>x\<in>A. \<bar>timestamp e - t\<bar> \<le> \<bar>timestamp x - t\<bar>)"
  by (simp add: best_def)

lemma best_None: "best A t tol (None, m) \<Longrightarrow> \<forall>x\<in>A. tol < \<bar>timestamp x - t\<bar>"
  by (simp add: best_def)

lemma far_near_False:
  "\<forall>x\<in>A. (tol::int) < \<bar>timestamp x - t\<bar> \<Longrightarrow> x \<in> A \<Longrightarrow> \<bar>timestamp x - t\<bar> \<le> tol \<Longrightarrow> False"
proof -
  assume "\<forall>x\<in>A. tol < \<bar>timestamp x - t\<bar>" and "x \<in> A" and le: "\<bar>timestamp x - t\<bar> \<le> tol"
  then have "tol < \<bar>timestamp x - t\<bar>" by blast
  with le show False by linarith
qed

text \<open>
  What \<open>getNearest\<close> does compute, for a store whose buckets are sorted by timestamp (as
  \<open>insert\<close> leaves them), with \<open>k\<close> the bucket of \<open>t\<close>. If an entry of bucket \<open>k\<close> is within
  the tolerance, it returns an entry of bucket \<open>k\<close> within the tolerance that is nearest
  to \<open>t\<close> among the entries of bucket \<open>k\<close>. If none is, but an entry of bucket \<open>k - 1\<close> or
  \<open>k + 1\<close> is within the tolerance, it returns an entry of those two buckets within the
  tolerance that is nearest among their entries. If no entry of the three buckets is
  within the tolerance, it returns \<open>null\<close>. No other bucket is looked at, and bucket \<open>k\<close>
  goes first whatever the neighbours hold.
\<close>

theorem getNearest_three_buckets:
  assumes "sorted_buckets s"
  shows "((\<exists>x\<in>bucket_entries s (getBucketKey t). \<bar>timestamp x - t\<bar> \<le> tol) \<longrightarrow>
       (\<exists>e. getNearest s t tol = Some e \<and> e \<in> bucket_entries s (getBucketKey t) \<and>
            \<bar>timestamp e - t\<bar> \<le> tol \<and>
            (\<forall>x\<in>bucket_entries s (getBucketKey t).
               \<bar>timestamp e - t\<bar> \<le> \<bar>timestamp x - t\<bar>))) \<and>
     ((\<forall>x\<in>bucket_entries s (getBucketKey t). tol < \<bar>timestamp x - t\<bar>) \<and>
      (\<exists>x\<in>bucket_entries s (getBucketKey t - 1) \<union> bucket_entries s (getBucketKey t + 1).
         \<bar>timestamp x - t\<bar> \<le> tol) \<longrightarrow>
       (\<exists>e. getNearest s t tol = Some e \<and>
            e \<in> bucket_entries s (getBucketKey t - 1) \<union> bucket_entries s (getBucketKey t + 1) \<and>
            \<bar>timestamp e - t\<bar> \<le> tol \<and>
            (\<forall>x\<in>bucket_entries s (getBucketKey t - 1) \<union> bucket_entries s (getBucketKey t + 1).
               \<bar>timestamp e - t\<bar> \<le> \<bar>timestamp x - t\<bar>))) \<and>
     ((\<forall>x\<in>bucket_entries s (getBucketKey t) \<union> bucket_entries s (getBucketKey t - 1) \<union>
            bucket_entries s (getBucketKey t + 1). tol < \<bar>timestamp x - t\<bar>) \<longrightarrow>
       getNearest s t tol = None)"
proof -
  let ?B = "bucket_entries s (getBucketKey t)"
  let ?N = "bucket_entries s (getBucketKey t - 1) \<union> bucket_entries s (getBucketKey t + 1)"
  let ?adj = "foldl (consider_bucket t tol) (None, None)
      [buckets s (getBucketKey t - 1), buckets s (getBucketKey t + 1)]"
  from getNearest_found[OF assms, of t tol] obtain found m where
    b: "best ?B t tol (found, m)" and
    g: "getNearest s t tol = (case found of Some e \<Rightarrow> Some e | None \<Rightarrow> fst ?adj)"
    by blast
  obtain r' m' where adj: "?adj = (r', m')" by (cases ?adj)
  have a: "best ?N t tol (r', m')"
    using adjacent_best[OF assms, of "getBucketKey t" t tol] unfolding adj .
  show ?thesis
  proof (cases found)
    case (Some e)
    with g have r: "getNearest s t tol = Some e" by simp
    from best_Some[OF b[unfolded Some]] have
      e: "e \<in> ?B" "\<bar>timestamp e - t\<bar> \<le> tol" "\<forall>x\<in>?B. \<bar>timestamp e - t\<bar> \<le> \<bar>timestamp x - t\<bar>"
      by blast+
    have n1: "\<not> (\<forall>x\<in>?B. tol < \<bar>timestamp x - t\<bar>)"
    proof
      assume "\<forall>x\<in>?B. tol < \<bar>timestamp x - t\<bar>"
      with e(1) have "tol < \<bar>timestamp e - t\<bar>" by blast
      with e(2) show False by simp
    qed
    have n2: "\<not> (\<forall>x\<in>?B \<union> ?N. tol < \<bar>timestamp x - t\<bar>)"
    proof
      assume "\<forall>x\<in>?B \<union> ?N. tol < \<bar>timestamp x - t\<bar>"
      with e(1) have "tol < \<bar>timestamp e - t\<bar>" by blast
      with e(2) show False by simp
    qed
    from r e have k1: "\<exists>e. getNearest s t tol = Some e \<and> e \<in> ?B \<and> \<bar>timestamp e - t\<bar> \<le> tol \<and>
        (\<forall>x\<in>?B. \<bar>timestamp e - t\<bar> \<le> \<bar>timestamp x - t\<bar>)" by blast
    from n2 have k3: "\<not> (\<forall>x\<in>?B \<union> bucket_entries s (getBucketKey t - 1) \<union>
        bucket_entries s (getBucketKey t + 1). tol < \<bar>timestamp x - t\<bar>)"
      by (simp add: Un_assoc)
    show ?thesis
    proof (intro conjI impI)
      show "\<exists>e. getNearest s t tol = Some e \<and> e \<in> ?B \<and> \<bar>timestamp e - t\<bar> \<le> tol \<and>
        (\<forall>x\<in>?B. \<bar>timestamp e - t\<bar> \<le> \<bar>timestamp x - t\<bar>)" by (rule k1)
    next
      assume "(\<forall>x\<in>?B. tol < \<bar>timestamp x - t\<bar>) \<and> (\<exists>x\<in>?N. \<bar>timestamp x - t\<bar> \<le> tol)"
      with n1 have False by blast
      then show "\<exists>e. getNearest s t tol = Some e \<and> e \<in> ?N \<and> \<bar>timestamp e - t\<bar> \<le> tol \<and>
            (\<forall>x\<in>?N. \<bar>timestamp e - t\<bar> \<le> \<bar>timestamp x - t\<bar>)" ..
    next
      assume "\<forall>x\<in>?B \<union> bucket_entries s (getBucketKey t - 1) \<union>
        bucket_entries s (getBucketKey t + 1). tol < \<bar>timestamp x - t\<bar>"
      with k3 have False by blast
      then show "getNearest s t tol = None" ..
    qed
  next
    case None
    with g adj have r: "getNearest s t tol = r'" by simp
    from best_None[OF b[unfolded None]] have far: "\<forall>x\<in>?B. tol < \<bar>timestamp x - t\<bar>" .
    have c1: "\<not> (\<exists>x\<in>?B. \<bar>timestamp x - t\<bar> \<le> tol)"
    proof
      assume "\<exists>x\<in>?B. \<bar>timestamp x - t\<bar> \<le> tol"
      then obtain x where "x \<in> ?B" "\<bar>timestamp x - t\<bar> \<le> tol" by blast
      with far show False by (rule far_near_False)
    qed
    have c2: "(\<exists>x\<in>?N. \<bar>timestamp x - t\<bar> \<le> tol) \<longrightarrow>
       (\<exists>e. getNearest s t tol = Some e \<and> e \<in> ?N \<and> \<bar>timestamp e - t\<bar> \<le> tol \<and>
            (\<forall>x\<in>?N. \<bar>timestamp e - t\<bar> \<le> \<bar>timestamp x - t\<bar>))"
    proof
      assume ex: "\<exists>x\<in>?N. \<bar>timestamp x - t\<bar> \<le> tol"
      show "\<exists>e. getNearest s t tol = Some e \<and> e \<in> ?N \<and> \<bar>timestamp e - t\<bar> \<le> tol \<and>
            (\<forall>x\<in>?N. \<bar>timestamp e - t\<bar> \<le> \<bar>timestamp x - t\<bar>)"
      proof (cases r')
        case None
        with a have nfar: "\<forall>x\<in>?N. tol < \<bar>timestamp x - t\<bar>" by (simp add: best_def)
        from ex obtain x where "x \<in> ?N" "\<bar>timestamp x - t\<bar> \<le> tol" by blast
        with nfar have False by (rule far_near_False)
        then show ?thesis ..
      next
        case (Some e)
        with a have "best ?N t tol (Some e, m')" by simp
        from best_Some[OF this] r Some show ?thesis by simp
      qed
    qed
    have c3: "(\<forall>x\<in>?B \<union> ?N. tol < \<bar>timestamp x - t\<bar>) \<longrightarrow> getNearest s t tol = None"
    proof
      assume allfar: "\<forall>x\<in>?B \<union> ?N. tol < \<bar>timestamp x - t\<bar>"
      show "getNearest s t tol = None"
      proof (cases r')
        case None
        with r show ?thesis by simp
      next
        case (Some e)
        with a have "best ?N t tol (Some e, m')" by simp
        from best_Some[OF this] have "e \<in> ?N" "\<bar>timestamp e - t\<bar> \<le> tol" by blast+
        then have "e \<in> ?B \<union> ?N" "\<bar>timestamp e - t\<bar> \<le> tol" by blast+
        with allfar have False by (rule far_near_False)
        then show ?thesis ..
      qed
    qed
    from c3 have c3': "(\<forall>x\<in>?B \<union> bucket_entries s (getBucketKey t - 1) \<union>
        bucket_entries s (getBucketKey t + 1). tol < \<bar>timestamp x - t\<bar>) \<longrightarrow>
        getNearest s t tol = None"
      by (simp add: Un_assoc)
    show ?thesis
    proof (intro conjI)
      show "(\<exists>x\<in>?B. \<bar>timestamp x - t\<bar> \<le> tol) \<longrightarrow>
        (\<exists>e. getNearest s t tol = Some e \<and> e \<in> ?B \<and> \<bar>timestamp e - t\<bar> \<le> tol \<and>
          (\<forall>x\<in>?B. \<bar>timestamp e - t\<bar> \<le> \<bar>timestamp x - t\<bar>))"
        using c1 by blast
    next
      show "(\<forall>x\<in>?B. tol < \<bar>timestamp x - t\<bar>) \<and> (\<exists>x\<in>?N. \<bar>timestamp x - t\<bar> \<le> tol) \<longrightarrow>
        (\<exists>e. getNearest s t tol = Some e \<and> e \<in> ?N \<and> \<bar>timestamp e - t\<bar> \<le> tol \<and>
            (\<forall>x\<in>?N. \<bar>timestamp e - t\<bar> \<le> \<bar>timestamp x - t\<bar>))"
        using c2 by blast
    next
      show "(\<forall>x\<in>?B \<union> bucket_entries s (getBucketKey t - 1) \<union>
        bucket_entries s (getBucketKey t + 1). tol < \<bar>timestamp x - t\<bar>) \<longrightarrow>
        getNearest s t tol = None"
        by (rule c3')
    qed
  qed
qed

lemma bucket_entries_inserts:
  "bucket_entries (inserts S) k =
     set (filter (\<lambda>e. getBucketKey (timestamp e) = k) (sort_key timestamp (rev S)))"
  by (simp add: bucket_entries_def bucket_of_inserts)

lemma getNearest_far_bucket:
  "getNearest (inserts [trade 1000 ''A'']) 150000 200000 = None"
  by (simp add: getNearest_def buckets_inserts getBucketKey_def BUCKET_SIZE_MS_def trade_def
      consider_bucket_def)

lemma getNearest_own_bucket_first:
  "getNearest (inserts [trade 9000 ''A'', trade 60000 ''B'']) 59000 60000 = Some (trade 9000 ''A'')"
  by (simp add: getNearest_def buckets_inserts getBucketKey_def BUCKET_SIZE_MS_def trade_def
      nearest_in_bucket_def findFirstAtOrAfter_takeWhile closer_def Let_def)

lemma getNearest_adjacent_tie:
  "getNearest (inserts [trade 50000 ''A'', trade 130000 ''B'']) 90000 60000 =
     Some (trade 50000 ''A'')"
  by (simp add: getNearest_def buckets_inserts getBucketKey_def BUCKET_SIZE_MS_def trade_def
      consider_bucket_def consider_candidate_def findFirstAtOrAfter_takeWhile closer_def Let_def)

lemma getNearest_own_bucket_tie:
  "getNearest (inserts [trade 1000 ''A'', trade 11000 ''B'']) 6000 60000 = Some (trade 11000 ''B'')"
  by (simp add: getNearest_def buckets_inserts getBucketKey_def BUCKET_SIZE_MS_def trade_def
      nearest_in_bucket_def findFirstAtOrAfter_takeWhile closer_def Let_def)

text \<open>
  C5 fails on the code, in both ways the claim names. With a tolerance of \<open>200000\<close>, an
  entry at \<open>1000\<close> is within the tolerance of \<open>150000\<close> but two buckets away, and
  \<open>getNearest\<close> returns \<open>null\<close>. With the default tolerance, \<open>getNearest(59000)\<close> returns the
  entry at \<open>9000\<close> of its own bucket although the entry at \<open>60000\<close>, in the next bucket, is
  nearer and within the tolerance.
\<close>

theorem getNearest_not_global:
  "\<bar>timestamp (trade 1000 ''A'') - 150000\<bar> \<le> 200000 \<and>
   getNearest (inserts [trade 1000 ''A'']) 150000 200000 = None \<and>
   \<bar>timestamp (trade 60000 ''B'') - 59000\<bar> < \<bar>timestamp (trade 9000 ''A'') - 59000\<bar> \<and>
   \<bar>timestamp (trade 60000 ''B'') - 59000\<bar> \<le> 60000 \<and>
   getNearest (inserts [trade 9000 ''A'', trade 60000 ''B'']) 59000 60000 = Some (trade 9000 ''A'')"
  using getNearest_far_bucket getNearest_own_bucket_first by (simp add: trade_def)

theorem getNearest_three_buckets_witness:
  "(\<exists>e. getNearest (inserts [trade 9000 ''A'', trade 60000 ''B'']) 59000 60000 = Some e \<and>
        e \<in> {trade 9000 ''A''} \<and> \<bar>timestamp e - 59000\<bar> \<le> 60000) \<and>
   (\<exists>e. getNearest (inserts [trade 50000 ''A'', trade 130000 ''B'']) 90000 60000 = Some e \<and>
        e \<in> {trade 50000 ''A'', trade 130000 ''B''} \<and> \<bar>timestamp e - 90000\<bar> \<le> 60000) \<and>
   getNearest (inserts [trade 1000 ''A'']) 150000 200000 = None"
proof (intro conjI)
  have k: "getBucketKey 59000 = 0" by (simp add: getBucketKey_def BUCKET_SIZE_MS_def)
  have b: "bucket_entries (inserts [trade 9000 ''A'', trade 60000 ''B'']) 0 = {trade 9000 ''A''}"
    by (simp add: bucket_entries_inserts getBucketKey_def BUCKET_SIZE_MS_def trade_def)
  have "\<exists>x\<in>bucket_entries (inserts [trade 9000 ''A'', trade 60000 ''B'']) (getBucketKey 59000).
      \<bar>timestamp x - 59000\<bar> \<le> 60000"
    unfolding k b by (simp add: trade_def)
  with getNearest_three_buckets[OF sorted_buckets_inserts,
      of "[trade 9000 ''A'', trade 60000 ''B'']" 59000 60000]
  show "\<exists>e. getNearest (inserts [trade 9000 ''A'', trade 60000 ''B'']) 59000 60000 = Some e \<and>
        e \<in> {trade 9000 ''A''} \<and> \<bar>timestamp e - 59000\<bar> \<le> 60000"
    unfolding k b by blast
next
  have k: "getBucketKey 90000 = 1" by (simp add: getBucketKey_def BUCKET_SIZE_MS_def)
  have b: "bucket_entries (inserts [trade 50000 ''A'', trade 130000 ''B'']) 1 = {}"
    "bucket_entries (inserts [trade 50000 ''A'', trade 130000 ''B'']) (1 - 1) \<union>
     bucket_entries (inserts [trade 50000 ''A'', trade 130000 ''B'']) (1 + 1) =
       {trade 50000 ''A'', trade 130000 ''B''}"
    by (auto simp: bucket_entries_inserts getBucketKey_def BUCKET_SIZE_MS_def trade_def)
  have "\<exists>x\<in>{trade 50000 ''A'', trade 130000 ''B''}. \<bar>timestamp x - 90000\<bar> \<le> 60000"
    by (simp add: trade_def)
  with getNearest_three_buckets[OF sorted_buckets_inserts,
      of "[trade 50000 ''A'', trade 130000 ''B'']" 90000 60000]
  show "\<exists>e. getNearest (inserts [trade 50000 ''A'', trade 130000 ''B'']) 90000 60000 = Some e \<and>
        e \<in> {trade 50000 ''A'', trade 130000 ''B''} \<and> \<bar>timestamp e - 90000\<bar> \<le> 60000"
    unfolding k b by blast
next
  have k: "getBucketKey 150000 = 2" by (simp add: getBucketKey_def BUCKET_SIZE_MS_def)
  have b: "bucket_entries (inserts [trade 1000 ''A'']) 2 \<union>
     bucket_entries (inserts [trade 1000 ''A'']) (2 - 1) \<union>
     bucket_entries (inserts [trade 1000 ''A'']) (2 + 1) = {}"
    by (simp add: bucket_entries_inserts getBucketKey_def BUCKET_SIZE_MS_def trade_def)
  from getNearest_three_buckets[OF sorted_buckets_inserts, of "[trade 1000 ''A'']" 150000 200000]
  show "getNearest (inserts [trade 1000 ''A'']) 150000 200000 = None"
    unfolding k b by blast
qed

subsection \<open>Ties of getNearest\<close>

lemma nearest_in_bucket_tie:
  assumes srt: "sorted (map timestamp b)" and y: "y \<in> set b" and ge: "t \<le> timestamp y"
    and near: "timestamp y - t \<le> tol"
    and least: "\<forall>z\<in>set b. timestamp y - t \<le> \<bar>timestamp z - t\<bar>"
  shows "\<exists>e. nearest_in_bucket b t tol = Some e \<and> e \<in> set b \<and> timestamp e = timestamp y"
proof -
  let ?i = "findFirstAtOrAfter b t"
  note p = findFirstAtOrAfter_sorted[OF srt, of t]
  from candidates_dominate[OF srt y, of t] ge have il: "?i < length b"
    and d: "\<bar>timestamp (b ! ?i) - t\<bar> \<le> \<bar>timestamp y - t\<bar>" by auto
  from p il have ta: "t \<le> timestamp (b ! ?i)" by blast
  from il have mem: "b ! ?i \<in> set b" by simp
  with least have "timestamp y - t \<le> \<bar>timestamp (b ! ?i) - t\<bar>" by blast
  with d ge ta have eq: "timestamp (b ! ?i) = timestamp y" by linarith
  with near ge have an: "\<bar>timestamp (b ! ?i) - t\<bar> \<le> tol" by linarith
  have "nearest_in_bucket b t tol = Some (b ! ?i)"
  proof (cases "0 < ?i")
    case False
    with il an show ?thesis
      by (simp add: nearest_in_bucket_def Let_def closer_def)
  next
    case True
    with il have "b ! (?i - 1) \<in> set b" by simp
    with least have "timestamp y - t \<le> \<bar>timestamp (b ! (?i - 1)) - t\<bar>" by blast
    with eq ge have "\<not> \<bar>timestamp (b ! (?i - 1)) - t\<bar> < \<bar>timestamp (b ! ?i) - t\<bar>" by linarith
    with True il an show ?thesis
      by (simp add: nearest_in_bucket_def Let_def closer_def)
  qed
  with mem eq show ?thesis by blast
qed

lemma consider_bucket_keep:
  assumes m: "snd st = Some m" and srt: "\<forall>b. adj = Some b \<longrightarrow> sorted (map timestamp b)"
    and far: "\<forall>z\<in>(case adj of None \<Rightarrow> {} | Some b \<Rightarrow> set b). m \<le> \<bar>timestamp z - t\<bar>"
  shows "consider_bucket t tol st adj = st"
proof (cases adj)
  case None
  then show ?thesis by (simp add: consider_bucket_def)
next
  case (Some b)
  with srt have s: "sorted (map timestamp b)" by blast
  let ?i = "findFirstAtOrAfter b t"
  from findFirstAtOrAfter_sorted[OF s, of t] have il: "?i \<le> length b" by blast
  have keep: "c \<in> set b \<Longrightarrow> consider_candidate t tol st (Some c) = st" for c
  proof -
    assume "c \<in> set b"
    with far Some have "m \<le> \<bar>timestamp c - t\<bar>" by simp
    with m show ?thesis by (simp add: consider_candidate_def closer_def)
  qed
  have a: "consider_candidate t tol st (if ?i < length b then Some (b ! ?i) else None) = st"
    using keep[of "b ! ?i"] by simp
  have b: "consider_candidate t tol st (if 0 < ?i then Some (b ! (?i - 1)) else None) = st"
    using keep[of "b ! (?i - 1)"] il by simp
  from Some a b show ?thesis by (simp add: consider_bucket_def Let_def)
qed

lemma keyed_before:
  assumes "keyed s" and "x \<in> bucket_entries s (getBucketKey t - 1)"
  shows "timestamp x < t"
proof (rule ccontr)
  assume "\<not> timestamp x < t"
  then have "t div 60000 \<le> timestamp x div 60000" by (simp add: zdiv_mono1)
  moreover from keyed_get_or_create[OF assms(1)] assms(2)
  have "getBucketKey (timestamp x) = getBucketKey t - 1" by (simp add: bucket_entries_def)
  ultimately show False by (simp add: getBucketKey_def BUCKET_SIZE_MS_def)
qed

lemma bucket_entries_Some:
  "x \<in> bucket_entries s k \<Longrightarrow> \<exists>b. buckets s k = Some b \<and> b \<noteq> [] \<and> set b = bucket_entries s k"
  by (cases "buckets s k") (auto simp: bucket_entries_def get_or_create_def)

lemma bucket_entries_case:
  "(case buckets s k of None \<Rightarrow> {} | Some b \<Rightarrow> set b) = bucket_entries s k"
  by (cases "buckets s k") (simp_all add: bucket_entries_def get_or_create_def)

text \<open>
  C6, as the code has it, for a store whose buckets are sorted and hold the entries of
  their key, with \<open>k\<close> the bucket of \<open>t\<close>. In bucket \<open>k\<close> the candidate at or after \<open>t\<close> is
  looked at first and only a strictly nearer one replaces it: when an entry \<open>y\<close> of bucket
  \<open>k\<close> at or after \<open>t\<close> is within the tolerance and no entry of bucket \<open>k\<close> is nearer,
  \<open>getNearest\<close> returns an entry with the timestamp of \<open>y\<close>, also when an earlier entry
  is at the same distance. Of the adjacent buckets, \<open>k - 1\<close> is looked at first: when no
  entry of bucket \<open>k\<close> is within the tolerance, an entry \<open>x\<close> of bucket \<open>k - 1\<close> is, and no
  entry of buckets \<open>k - 1\<close> and \<open>k + 1\<close> is nearer, \<open>getNearest\<close> returns an entry with the
  timestamp of \<open>x\<close>, the earlier one, also when an entry of bucket \<open>k + 1\<close> is at the same
  distance.
\<close>

theorem getNearest_ties:
  assumes "sorted_buckets s" and "keyed s"
  shows "(y \<in> bucket_entries s (getBucketKey t) \<and> t \<le> timestamp y \<and> timestamp y - t \<le> tol \<and>
      (\<forall>z\<in>bucket_entries s (getBucketKey t). timestamp y - t \<le> \<bar>timestamp z - t\<bar>) \<longrightarrow>
      (\<exists>e. getNearest s t tol = Some e \<and> timestamp e = timestamp y \<and> t \<le> timestamp e)) \<and>
     ((\<forall>z\<in>bucket_entries s (getBucketKey t). tol < \<bar>timestamp z - t\<bar>) \<and>
      x \<in> bucket_entries s (getBucketKey t - 1) \<and> t - timestamp x \<le> tol \<and>
      (\<forall>z\<in>bucket_entries s (getBucketKey t - 1) \<union> bucket_entries s (getBucketKey t + 1).
         t - timestamp x \<le> \<bar>timestamp z - t\<bar>) \<longrightarrow>
      (\<exists>e. getNearest s t tol = Some e \<and> timestamp e = timestamp x \<and> timestamp e < t))"
proof (intro conjI impI)
  let ?k = "getBucketKey t"
  assume h: "y \<in> bucket_entries s ?k \<and> t \<le> timestamp y \<and> timestamp y - t \<le> tol \<and>
      (\<forall>z\<in>bucket_entries s ?k. timestamp y - t \<le> \<bar>timestamp z - t\<bar>)"
  then obtain b where b: "buckets s ?k = Some b" "b \<noteq> []" "set b = bucket_entries s ?k"
    using bucket_entries_Some by blast
  from assms(1) b(1) have srt: "sorted (map timestamp b)" by (simp add: sorted_buckets_def)
  from h b(3) have "y \<in> set b" "t \<le> timestamp y" "timestamp y - t \<le> tol"
    "\<forall>z\<in>set b. timestamp y - t \<le> \<bar>timestamp z - t\<bar>" by simp_all
  from nearest_in_bucket_tie[OF srt this] obtain e where
    e: "nearest_in_bucket b t tol = Some e" "timestamp e = timestamp y" by blast
  from b e(1) have "getNearest s t tol = Some e" by (simp add: getNearest_def Let_def)
  with e(2) h show "\<exists>e. getNearest s t tol = Some e \<and> timestamp e = timestamp y \<and> t \<le> timestamp e"
    by simp
next
  let ?k = "getBucketKey t"
  let ?N = "bucket_entries s (?k - 1) \<union> bucket_entries s (?k + 1)"
  assume h: "(\<forall>z\<in>bucket_entries s ?k. tol < \<bar>timestamp z - t\<bar>) \<and>
      x \<in> bucket_entries s (?k - 1) \<and> t - timestamp x \<le> tol \<and>
      (\<forall>z\<in>?N. t - timestamp x \<le> \<bar>timestamp z - t\<bar>)"
  then have far: "\<forall>z\<in>bucket_entries s ?k. tol < \<bar>timestamp z - t\<bar>"
    and x: "x \<in> bucket_entries s (?k - 1)" and near: "t - timestamp x \<le> tol"
    and least: "\<forall>z\<in>?N. t - timestamp x \<le> \<bar>timestamp z - t\<bar>" by blast+
  from keyed_before[OF assms(2) x] have xt: "timestamp x < t" .
  have srt: "\<forall>b. buckets s j = Some b \<longrightarrow> sorted (map timestamp b)" for j
    using assms(1) by (simp add: sorted_buckets_def)
  \<comment> \<open>nothing is found in the bucket of \<open>t\<close>\<close>
  from getNearest_found[OF assms(1), of t tol] obtain found m where
    fb: "best (bucket_entries s ?k) t tol (found, m)" and
    g: "getNearest s t tol = (case found of Some e \<Rightarrow> Some e | None \<Rightarrow>
          fst (foldl (consider_bucket t tol) (None, None) [buckets s (?k - 1), buckets s (?k + 1)]))"
    by blast
  have "found = None"
  proof (cases found)
    case None
    then show ?thesis .
  next
    case (Some e)
    from best_Some[OF fb[unfolded Some]] have "e \<in> bucket_entries s ?k" "\<bar>timestamp e - t\<bar> \<le> tol"
      by blast+
    with far have False by (rule far_near_False)
    then show ?thesis ..
  qed
  with g have r: "getNearest s t tol =
      fst (consider_bucket t tol (consider_bucket t tol (None, None) (buckets s (?k - 1)))
             (buckets s (?k + 1)))" by simp
  \<comment> \<open>bucket \<open>k - 1\<close> gives an entry at the distance of \<open>x\<close>\<close>
  obtain r1 m1 where st1: "consider_bucket t tol (None, None) (buckets s (?k - 1)) = (r1, m1)"
    by (cases "consider_bucket t tol (None, None) (buckets s (?k - 1))")
  from best_consider_bucket[OF best_start srt[of "?k - 1"], of t tol]
  have b1: "best (bucket_entries s (?k - 1)) t tol (r1, m1)"
    unfolding st1 by (simp add: bucket_entries_case)
  have "r1 \<noteq> None"
  proof
    assume "r1 = None"
    with b1 have "\<forall>z\<in>bucket_entries s (?k - 1). tol < \<bar>timestamp z - t\<bar>"
      by (simp add: best_def)
    moreover from near xt have "\<bar>timestamp x - t\<bar> \<le> tol" by linarith
    ultimately show False using x by (rule_tac far_near_False)
  qed
  then obtain e1 where r1: "r1 = Some e1" by blast
  from b1 r1 have m1: "m1 = Some \<bar>timestamp e1 - t\<bar>" by (simp add: best_def)
  from best_Some[OF b1[unfolded r1]] have e1: "e1 \<in> bucket_entries s (?k - 1)"
    and e1min: "\<forall>z\<in>bucket_entries s (?k - 1). \<bar>timestamp e1 - t\<bar> \<le> \<bar>timestamp z - t\<bar>"
    by blast+
  from keyed_before[OF assms(2) e1] have e1t: "timestamp e1 < t" .
  from e1min x have "\<bar>timestamp e1 - t\<bar> \<le> \<bar>timestamp x - t\<bar>" by blast
  moreover from least e1 have "t - timestamp x \<le> \<bar>timestamp e1 - t\<bar>" by blast
  ultimately have eq: "timestamp e1 = timestamp x" using xt e1t by linarith
  \<comment> \<open>bucket \<open>k + 1\<close> holds nothing strictly nearer\<close>
  have "\<forall>z\<in>(case buckets s (?k + 1) of None \<Rightarrow> {} | Some b \<Rightarrow> set b).
      \<bar>timestamp e1 - t\<bar> \<le> \<bar>timestamp z - t\<bar>"
  proof
    fix z assume "z \<in> (case buckets s (?k + 1) of None \<Rightarrow> {} | Some b \<Rightarrow> set b)"
    then have "z \<in> ?N" by (simp add: bucket_entries_case)
    with least have "t - timestamp x \<le> \<bar>timestamp z - t\<bar>" by blast
    with eq e1t show "\<bar>timestamp e1 - t\<bar> \<le> \<bar>timestamp z - t\<bar>" by linarith
  qed
  from consider_bucket_keep[OF _ srt[of "?k + 1"] this, of "(r1, m1)" tol] m1
  have "consider_bucket t tol (r1, m1) (buckets s (?k + 1)) = (r1, m1)" by simp
  with r st1 r1 have "getNearest s t tol = Some e1" by simp
  with eq e1t xt show "\<exists>e. getNearest s t tol = Some e \<and> timestamp e = timestamp x \<and> timestamp e < t"
    by simp
qed

lemma reachable_foldl_insert: "reachable s \<Longrightarrow> reachable (foldl insert_entry s S)"
  by (induction S arbitrary: s) (simp_all add: reachable_insert)

lemma keyed_inserts: "keyed (inserts S)"
  unfolding inserts_def by (rule keyed_reachable[OF reachable_foldl_insert[OF reachable_new]])

theorem getNearest_ties_witness:
  "(\<exists>e. getNearest (inserts [trade 1000 ''A'', trade 11000 ''B'']) 6000 60000 = Some e \<and>
        timestamp e = 11000) \<and>
   (\<exists>e. getNearest (inserts [trade 50000 ''A'', trade 130000 ''B'']) 90000 60000 = Some e \<and>
        timestamp e = 50000)"
proof
  have k: "getBucketKey 6000 = 0" by (simp add: getBucketKey_def BUCKET_SIZE_MS_def)
  have b: "bucket_entries (inserts [trade 1000 ''A'', trade 11000 ''B'']) 0 =
      {trade 1000 ''A'', trade 11000 ''B''}"
    by (auto simp: bucket_entries_inserts getBucketKey_def BUCKET_SIZE_MS_def trade_def)
  have "trade 11000 ''B'' \<in> {trade 1000 ''A'', trade 11000 ''B''} \<and>
      6000 \<le> timestamp (trade 11000 ''B'') \<and> timestamp (trade 11000 ''B'') - 6000 \<le> 60000 \<and>
      (\<forall>z\<in>{trade 1000 ''A'', trade 11000 ''B''}.
         timestamp (trade 11000 ''B'') - 6000 \<le> \<bar>timestamp z - 6000\<bar>)"
    by (simp add: trade_def)
  with getNearest_ties[OF sorted_buckets_inserts keyed_inserts,
      of "trade 11000 ''B''" "[trade 1000 ''A'', trade 11000 ''B'']" 6000 60000]
  show "\<exists>e. getNearest (inserts [trade 1000 ''A'', trade 11000 ''B'']) 6000 60000 = Some e \<and>
        timestamp e = 11000"
    unfolding k b by (auto simp: trade_def)
next
  have k: "getBucketKey 90000 = 1" by (simp add: getBucketKey_def BUCKET_SIZE_MS_def)
  have b: "bucket_entries (inserts [trade 50000 ''A'', trade 130000 ''B'']) 1 = {}"
    "bucket_entries (inserts [trade 50000 ''A'', trade 130000 ''B'']) (1 - 1) = {trade 50000 ''A''}"
    "bucket_entries (inserts [trade 50000 ''A'', trade 130000 ''B'']) (1 + 1) = {trade 130000 ''B''}"
    by (auto simp: bucket_entries_inserts getBucketKey_def BUCKET_SIZE_MS_def trade_def)
  have "(\<forall>z\<in>{}. (60000::int) < \<bar>timestamp z - 90000\<bar>) \<and>
      trade 50000 ''A'' \<in> {trade 50000 ''A''} \<and> 90000 - timestamp (trade 50000 ''A'') \<le> 60000 \<and>
      (\<forall>z\<in>{trade 50000 ''A''} \<union> {trade 130000 ''B''}.
         90000 - timestamp (trade 50000 ''A'') \<le> \<bar>timestamp z - 90000\<bar>)"
    by (simp add: trade_def)
  with getNearest_ties[OF sorted_buckets_inserts keyed_inserts,
      of _ "[trade 50000 ''A'', trade 130000 ''B'']" 90000 60000 "trade 50000 ''A''"]
  show "\<exists>e. getNearest (inserts [trade 50000 ''A'', trade 130000 ''B'']) 90000 60000 = Some e \<and>
        timestamp e = 50000"
    unfolding k b by (auto simp: trade_def)
qed

text \<open>
  The claim as stated fails for the adjacent buckets: with \<open>t = 90000\<close> in bucket \<open>1\<close>, an
  entry at \<open>50000\<close> in bucket \<open>0\<close> and one at \<open>130000\<close> in bucket \<open>2\<close>, both \<open>40000\<close> away,
  \<open>getNearest\<close> returns the earlier one.
\<close>

theorem getNearest_adjacent_tie_earlier:
  "getBucketKey 90000 = 1 \<and> getBucketKey (timestamp (trade 50000 ''A'')) = 1 - 1 \<and>
   getBucketKey (timestamp (trade 130000 ''B'')) = 1 + 1 \<and>
   \<bar>timestamp (trade 50000 ''A'') - 90000\<bar> = \<bar>timestamp (trade 130000 ''B'') - 90000\<bar> \<and>
   \<bar>timestamp (trade 130000 ''B'') - 90000\<bar> \<le> 60000 \<and>
   getNearest (inserts [trade 50000 ''A'', trade 130000 ''B'']) 90000 60000 =
     Some (trade 50000 ''A'')"
  using getNearest_adjacent_tie by (simp add: getBucketKey_def BUCKET_SIZE_MS_def trade_def)

subsection \<open>getByTimeRange\<close>

lemma limit_reached_active:
  "limit_reached (q_limit q) n = (case active_limit q of None \<Rightarrow> False | Some l \<Rightarrow> l \<le> n)"
  by (simp add: limit_reached_def active_limit_def split: option.splits)

lemma slice_end: "length bucket \<le> i \<Longrightarrow> slice q bucket i = []"
  by (simp add: slice_def)

lemma slice_stop:
  "i < length bucket \<Longrightarrow> q_end q \<le> timestamp (bucket ! i) \<Longrightarrow> slice q bucket i = []"
  by (simp add: slice_def Cons_nth_drop_Suc[symmetric])

lemma slice_skip:
  "i < length bucket \<Longrightarrow> timestamp (bucket ! i) < q_end q \<Longrightarrow> \<not> passes q (bucket ! i) \<Longrightarrow>
   slice q bucket i = slice q bucket (i + 1)"
  by (simp add: slice_def Cons_nth_drop_Suc[symmetric])

lemma slice_take:
  "i < length bucket \<Longrightarrow> timestamp (bucket ! i) < q_end q \<Longrightarrow> passes q (bucket ! i) \<Longrightarrow>
   slice q bucket i = bucket ! i # slice q bucket (i + 1)"
  by (simp add: slice_def Cons_nth_drop_Suc[symmetric])

lemma scan_bucket_finish:
  assumes "\<forall>l. active_limit q = Some l \<longrightarrow> length results < l"
  shows "scan_bucket q bucket i results = finish (active_limit q) (results @ slice q bucket i)"
  using assms
proof (induction q bucket i results rule: scan_bucket.induct)
  case (1 q bucket i results)
  note inv = "1.prems"
  have fin0: "finish (active_limit q) results = Continue results"
    using inv by (auto simp: finish_def split: option.splits)
  show ?case
  proof (cases "i < length bucket")
    case False
    then have "scan_bucket q bucket i results = Continue results"
      by (subst scan_bucket.simps) simp
    with False fin0 show ?thesis by (simp add: slice_end)
  next
    case il: True
    show ?thesis
    proof (cases "q_end q \<le> timestamp (bucket ! i)")
      case True
      with il have "scan_bucket q bucket i results = Continue results"
        by (subst scan_bucket.simps) simp
      with il True fin0 show ?thesis by (simp add: slice_stop)
    next
      case inwin: False
      then have lt: "timestamp (bucket ! i) < q_end q" by simp
      show ?thesis
      proof (cases "source_mismatch (q_source q) (bucket ! i)")
        case True
        then have np: "\<not> passes q (bucket ! i)" by (simp add: passes_def)
        from il inwin True have
          "scan_bucket q bucket i results = scan_bucket q bucket (i + 1) results"
          by (subst scan_bucket.simps) simp
        with "1.IH"(1)[OF il inwin True inv] slice_skip[OF il lt np] show ?thesis by simp
      next
        case src: False
        show ?thesis
        proof (cases "side_mismatch (q_side q) (bucket ! i)")
          case True
          then have np: "\<not> passes q (bucket ! i)" by (simp add: passes_def)
          from il inwin src True have
            "scan_bucket q bucket i results = scan_bucket q bucket (i + 1) results"
            by (subst scan_bucket.simps) simp
          with "1.IH"(2)[OF il inwin src True inv] slice_skip[OF il lt np] show ?thesis by simp
        next
          case sd: False
          with src have p: "passes q (bucket ! i)" by (simp add: passes_def)
          note sl = slice_take[OF il lt p]
          show ?thesis
          proof (cases "limit_reached (q_limit q) (length (results @ [bucket ! i]))")
            case True
            with il inwin src sd have r:
              "scan_bucket q bucket i results = Return (results @ [bucket ! i])"
              by (subst scan_bucket.simps) simp
            from True obtain l where l: "active_limit q = Some l" "l \<le> length results + 1"
              by (auto simp: limit_reached_active split: option.splits)
            with inv have "l = length results + 1" by fastforce
            with l(1) show ?thesis unfolding r sl by (simp add: finish_def)
          next
            case False
            with il inwin src sd have r:
              "scan_bucket q bucket i results = scan_bucket q bucket (i + 1) (results @ [bucket ! i])"
              by (subst scan_bucket.simps) simp
            from False have inv': "\<forall>l. active_limit q = Some l \<longrightarrow> length (results @ [bucket ! i]) < l"
              by (auto simp: limit_reached_active split: option.splits)
            from "1.IH"(3)[OF il inwin src sd False inv'] show ?thesis unfolding r sl by simp
          qed
        qed
      qed
    qed
  qed
qed

lemma cut_short: "\<forall>l. limit = Some l \<longrightarrow> length ys < l \<Longrightarrow> cut_limit limit ys = ys"
  by (cases limit) (simp_all add: cut_limit_def)

lemma range_loop_cut:
  assumes "\<forall>l. active_limit q = Some l \<longrightarrow> length results < l"
    and "startBucket = getBucketKey (q_start q)"
  shows "range_loop s q startBucket endBucket bucketKey results =
     cut_limit (active_limit q) (results @ concat (map (bucket_slice s q) [bucketKey..endBucket]))"
  using assms
proof (induction s q startBucket endBucket bucketKey results rule: range_loop.induct)
  case (1 s q startBucket endBucket bucketKey results)
  note inv = "1.prems"(1) and sb = "1.prems"(2)
  show ?case
  proof (cases "bucketKey \<le> endBucket")
    case False
    then have "range_loop s q startBucket endBucket bucketKey results = results"
      by (subst range_loop.simps) simp
    with False cut_short[OF inv] show ?thesis by simp
  next
    case True
    then have up: "[bucketKey..endBucket] = bucketKey # [bucketKey + 1..endBucket]"
      by (simp add: upto_rec1)
    show ?thesis
    proof (cases "buckets s bucketKey")
      case None
      with True have r: "range_loop s q startBucket endBucket bucketKey results =
          range_loop s q startBucket endBucket (bucketKey + 1) results"
        by (subst range_loop.simps) simp
      from None have "bucket_slice s q bucketKey = []" by (simp add: bucket_slice_def)
      with "1.IH"(1)[OF True None inv sb] show ?thesis unfolding r up by simp
    next
      case (Some bucket)
      define i where
        "i = (if bucketKey = startBucket then findFirstAtOrAfter bucket (q_start q) else 0)"
      define xs where "xs = slice q bucket i"
      have bs: "bucket_slice s q bucketKey = xs"
        using Some sb by (simp add: bucket_slice_def xs_def i_def)
      have sc: "scan_bucket q bucket i results = finish (active_limit q) (results @ xs)"
        unfolding xs_def by (rule scan_bucket_finish[OF inv])
      have step: "range_loop s q startBucket endBucket bucketKey results =
          (case scan_bucket q bucket i results of
             Return r \<Rightarrow> r
           | Continue r \<Rightarrow> range_loop s q startBucket endBucket (bucketKey + 1) r)"
        using True Some by (subst range_loop.simps) (simp add: i_def)
      show ?thesis
      proof (cases "\<exists>l. active_limit q = Some l \<and> l \<le> length (results @ xs)")
        case True
        then obtain l where l: "active_limit q = Some l" "l \<le> length (results @ xs)" by blast
        then have "scan_bucket q bucket i results = Return (take l (results @ xs))"
          unfolding sc by (simp add: finish_def)
        with step have
          "range_loop s q startBucket endBucket bucketKey results = take l (results @ xs)"
          by simp
        moreover from l(2) have
          "take l (results @ xs @ concat (map (bucket_slice s q) [bucketKey + 1..endBucket])) =
           take l (results @ xs)"
          by simp
        ultimately show ?thesis unfolding up using l(1) bs by (simp add: cut_limit_def)
      next
        case False
        then have inv': "\<forall>l. active_limit q = Some l \<longrightarrow> length (results @ xs) < l"
          by (metis not_le)
        from False have c: "scan_bucket q bucket i results = Continue (results @ xs)"
          unfolding sc by (auto simp: finish_def split: option.splits)
        with step have r:
          "range_loop s q startBucket endBucket bucketKey results =
           range_loop s q startBucket endBucket (bucketKey + 1) (results @ xs)"
          by simp
        from "1.IH"(2)[OF \<open>bucketKey \<le> endBucket\<close> Some c[unfolded i_def] inv' sb] show ?thesis
          unfolding r up using bs by simp
      qed
    qed
  qed
qed

lemma getByTimeRange_cut:
  "getByTimeRange s q =
     cut_limit (active_limit q)
       (concat (map (bucket_slice s q) [getBucketKey (q_start q)..getBucketKey (q_end q - 1)]))"
proof -
  have "\<forall>l. active_limit q = Some l \<longrightarrow> length ([]::TradeEntry list) < l"
    by (auto simp: active_limit_def split: option.splits if_splits)
  from range_loop_cut[OF this refl] show ?thesis by (simp add: getByTimeRange_def)
qed

lemma concat_filter_keys:
  fixes g :: "'a \<Rightarrow> int"
  assumes "sorted (map g xs)" and "\<forall>x\<in>set xs. a \<le> g x \<and> g x \<le> b"
  shows "concat (map (\<lambda>k. filter (\<lambda>x. g x = k) xs) [a..b]) = xs"
  using assms
proof (induction xs arbitrary: a)
  case Nil
  show ?case by simp
next
  case (Cons x xs)
  from Cons.prems have ax: "a \<le> g x" and xb: "g x \<le> b" by simp_all
  from Cons.prems have srt: "sorted (map g xs)" and ge: "\<forall>y\<in>set xs. g x \<le> g y" by simp_all
  from Cons.prems have "\<forall>y\<in>set xs. g x \<le> g y \<and> g y \<le> b" by simp
  from Cons.IH[OF srt this] have IH: "concat (map (\<lambda>k. filter (\<lambda>y. g y = k) xs) [g x..b]) = xs" .
  have split: "[a..b] = [a..g x - 1] @ g x # [g x + 1..b]"
    using ax xb by (rule upto_split3)
  define F where "F = (\<lambda>k. filter (\<lambda>y. g y = k) (x # xs))"
  have low: "concat (map F [a..g x - 1]) = []"
  proof -
    have "F k = []" if "k \<in> set [a..g x - 1]" for k
    proof -
      from that have "k < g x" by simp
      with ge have "\<forall>y\<in>set (x # xs). g y \<noteq> k" by fastforce
      then show ?thesis unfolding F_def by (simp only: filter_empty_conv)
    qed
    then show ?thesis by simp
  qed
  have high: "map F [g x + 1..b] = map (\<lambda>k. filter (\<lambda>y. g y = k) xs) [g x + 1..b]"
    unfolding F_def by (rule map_cong) auto
  have mid: "F (g x) = x # filter (\<lambda>y. g y = g x) xs"
    unfolding F_def by simp
  have "concat (map F [a..b]) = concat (map F [a..g x - 1]) @ F (g x) @ concat (map F [g x + 1..b])"
    unfolding split by simp
  also have "\<dots> = x # filter (\<lambda>y. g y = g x) xs @
      concat (map (\<lambda>k. filter (\<lambda>y. g y = k) xs) [g x + 1..b])"
    unfolding low high mid by simp
  also have "\<dots> = x # concat (map (\<lambda>k. filter (\<lambda>y. g y = k) xs) [g x..b])"
    unfolding upto_rec1[OF xb] by simp
  finally have "concat (map F [a..b]) = x # xs" unfolding IH .
  then show ?case unfolding F_def .
qed

lemma getBucketKey_mono: "a \<le> b \<Longrightarrow> getBucketKey a \<le> getBucketKey b"
  by (simp add: getBucketKey_def BUCKET_SIZE_MS_def zdiv_mono1)

lemma sorted_map_keys:
  "sorted (map timestamp xs) \<Longrightarrow> sorted (map (\<lambda>e. getBucketKey (timestamp e)) xs)"
proof (induction xs)
  case Nil
  show ?case by simp
next
  case (Cons x xs)
  then show ?case by (auto simp: getBucketKey_mono)
qed

lemma slice_sorted_bucket:
  assumes srt: "sorted (map timestamp b)"
    and i: "drop i b = filter (\<lambda>e. q_start q \<le> timestamp e) b"
  shows "slice q b i =
     filter (\<lambda>e. q_start q \<le> timestamp e \<and> timestamp e < q_end q \<and> passes q e) b"
proof -
  have s': "sorted (map timestamp (filter (\<lambda>e. q_start q \<le> timestamp e) b))"
    by (rule sorted_filter[OF srt])
  have "takeWhile (\<lambda>e. timestamp e < q_end q) (filter (\<lambda>e. q_start q \<le> timestamp e) b) =
      filter (\<lambda>e. timestamp e < q_end q) (filter (\<lambda>e. q_start q \<le> timestamp e) b)"
    by (rule sorted_takeWhile_filter[OF s'])
  then have "slice q b i = filter (passes q) (filter (\<lambda>e. timestamp e < q_end q)
      (filter (\<lambda>e. q_start q \<le> timestamp e) b))"
    unfolding slice_def i by simp
  also have "\<dots> = filter (\<lambda>e. q_start q \<le> timestamp e \<and> timestamp e < q_end q \<and> passes q e) b"
    unfolding filter_filter by (rule filter_cong) auto
  finally show ?thesis .
qed

lemma bucket_slice_inserts:
  assumes k: "getBucketKey (q_start q) \<le> k"
  shows "bucket_slice (inserts S) q k =
     filter (\<lambda>e. getBucketKey (timestamp e) = k)
       (filter (\<lambda>e. q_start q \<le> timestamp e \<and> timestamp e < q_end q \<and> passes q e)
          (sort_key timestamp (rev S)))"
proof -
  let ?all = "sort_key timestamp (rev S)"
  let ?W = "\<lambda>e. q_start q \<le> timestamp e \<and> timestamp e < q_end q \<and> passes q e"
  let ?K = "\<lambda>e. getBucketKey (timestamp e) = k"
  have comm: "filter ?K (filter ?W ?all) = filter ?W (filter ?K ?all)"
    unfolding filter_filter by (rule filter_cong) auto
  show ?thesis
  proof (cases "buckets (inserts S) k")
    case None
    then have "filter ?K ?all = []" by (simp add: buckets_inserts split: if_splits)
    with None show ?thesis unfolding comm by (simp add: bucket_slice_def)
  next
    case (Some b)
    note b = bucket_of_inserts_Some[OF Some]
    note srt = bucket_of_inserts_sorted[OF Some]
    define i where
      "i = (if k = getBucketKey (q_start q) then findFirstAtOrAfter b (q_start q) else 0)"
    have d: "drop i b = filter (\<lambda>e. q_start q \<le> timestamp e) b"
    proof (cases "k = getBucketKey (q_start q)")
      case True
      then have "i = length (takeWhile (\<lambda>e. timestamp e < q_start q) b)"
        by (simp add: i_def findFirstAtOrAfter_takeWhile[OF srt])
      then have "drop i b = dropWhile (\<lambda>e. timestamp e < q_start q) b"
        by (simp add: dropWhile_eq_drop)
      then show ?thesis by (simp add: sorted_dropWhile_filter[OF srt])
    next
      case False
      with k have lt: "getBucketKey (q_start q) < k" by simp
      have "\<forall>e\<in>set b. q_start q \<le> timestamp e"
      proof
        fix e assume "e \<in> set b"
        with b have ke: "getBucketKey (timestamp e) = k" by simp
        show "q_start q \<le> timestamp e"
        proof (rule ccontr)
          assume "\<not> q_start q \<le> timestamp e"
          then have "timestamp e \<le> q_start q" by simp
          from getBucketKey_mono[OF this] ke lt show False by simp
        qed
      qed
      then have "filter (\<lambda>e. q_start q \<le> timestamp e) b = b" by (simp add: filter_id_conv)
      with False show ?thesis by (simp add: i_def)
    qed
    have "bucket_slice (inserts S) q k = slice q b i"
      using Some by (simp add: bucket_slice_def i_def)
    also have "\<dots> = filter ?W b" by (rule slice_sorted_bucket[OF srt d])
    finally show ?thesis unfolding comm b .
  qed
qed

lemma getByTimeRange_inserts_cut:
  "getByTimeRange (inserts S) q =
     cut_limit (active_limit q)
       (filter (\<lambda>e. q_start q \<le> timestamp e \<and> timestamp e < q_end q \<and> passes q e)
          (sort_key timestamp (rev S)))"
proof -
  let ?W = "\<lambda>e. q_start q \<le> timestamp e \<and> timestamp e < q_end q \<and> passes q e"
  let ?H = "filter ?W (sort_key timestamp (rev S))"
  let ?k0 = "getBucketKey (q_start q)" and ?k1 = "getBucketKey (q_end q - 1)"
  have m: "map (bucket_slice (inserts S) q) [?k0..?k1] =
      map (\<lambda>k. filter (\<lambda>e. getBucketKey (timestamp e) = k) ?H) [?k0..?k1]"
    by (rule map_cong) (simp_all add: bucket_slice_inserts)
  have c: "concat (map (\<lambda>k. filter (\<lambda>e. getBucketKey (timestamp e) = k) ?H) [?k0..?k1]) = ?H"
  proof (rule concat_filter_keys)
    have "sorted (map timestamp ?H)" by (rule sorted_filter) simp
    then show "sorted (map (\<lambda>e. getBucketKey (timestamp e)) ?H)" by (rule sorted_map_keys)
  next
    show "\<forall>x\<in>set ?H. ?k0 \<le> getBucketKey (timestamp x) \<and> getBucketKey (timestamp x) \<le> ?k1"
    proof
      fix x assume "x \<in> set ?H"
      then have "q_start q \<le> timestamp x" "timestamp x \<le> q_end q - 1" by simp_all
      then show "?k0 \<le> getBucketKey (timestamp x) \<and> getBucketKey (timestamp x) \<le> ?k1"
        by (simp add: getBucketKey_mono)
    qed
  qed
  show ?thesis unfolding getByTimeRange_cut m c ..
qed

lemma passes_iff:
  "passes q e \<longleftrightarrow>
     (q_source q = None \<or> q_source q = Some [] \<or> q_source q = Some (source e)) \<and>
     (q_side q = None \<or> q_side q = Some (side e))"
  by (auto simp: passes_def source_mismatch_def side_mismatch_def split: option.splits)

lemma cut_limit_active:
  "cut_limit (active_limit q) ys =
     (case q_limit q of None \<Rightarrow> ys | Some n \<Rightarrow> if n = 0 then ys else take n ys)"
  by (simp add: cut_limit_def active_limit_def split: option.splits)

text \<open>
  C2, as the code has it. After the inserts \<open>S\<close> into a new store, \<open>getByTimeRange\<close> returns
  the inserted entries in timestamp order with ties in reverse insertion order (a stable
  sort of \<open>S\<close> reversed), those with \<open>start \<le> timestamp < end\<close> that match the filters:
  a source filter that is absent or the empty string lets every entry pass, as does an
  absent side filter. The result is cut to its first \<open>limit\<close> entries when \<open>limit\<close> is given
  and not \<open>0\<close>; a limit of \<open>0\<close> counts as no limit. In particular \<open>range(t, t)\<close> is empty.
\<close>

theorem getByTimeRange_inserts:
  "getByTimeRange (inserts S) q =
     (let hits = filter (\<lambda>e. q_start q \<le> timestamp e \<and> timestamp e < q_end q \<and>
                    (q_source q = None \<or> q_source q = Some [] \<or> q_source q = Some (source e)) \<and>
                    (q_side q = None \<or> q_side q = Some (side e)))
                 (sort_key timestamp (rev S))
      in case q_limit q of None \<Rightarrow> hits | Some n \<Rightarrow> if n = 0 then hits else take n hits) \<and>
   getByTimeRange (inserts S) (q\<lparr>q_start := t, q_end := t\<rparr>) = []"
proof
  show "getByTimeRange (inserts S) q =
     (let hits = filter (\<lambda>e. q_start q \<le> timestamp e \<and> timestamp e < q_end q \<and>
                    (q_source q = None \<or> q_source q = Some [] \<or> q_source q = Some (source e)) \<and>
                    (q_side q = None \<or> q_side q = Some (side e)))
                 (sort_key timestamp (rev S))
      in case q_limit q of None \<Rightarrow> hits | Some n \<Rightarrow> if n = 0 then hits else take n hits)"
    unfolding getByTimeRange_inserts_cut cut_limit_active passes_iff Let_def ..
next
  have "filter (\<lambda>e. t \<le> timestamp e \<and> timestamp e < t \<and> passes (q\<lparr>q_start := t, q_end := t\<rparr>) e)
      (sort_key timestamp (rev S)) = []"
    by (simp add: filter_empty_conv)
  then show "getByTimeRange (inserts S) (q\<lparr>q_start := t, q_end := t\<rparr>) = []"
    unfolding getByTimeRange_inserts_cut by (simp add: cut_limit_def split: option.splits)
qed

text \<open>
  The claim as stated fails. After \<open>insert(A)\<close> and \<open>insert(B)\<close> at one timestamp, the range
  query returns \<open>[B, A]\<close>, where the stable order of the claim is \<open>[A, B]\<close>; and with
  \<open>limit = 0\<close> it returns both entries, where the first \<open>0\<close> entries are none.
\<close>

theorem getByTimeRange_ties_reversed:
  "getByTimeRange (inserts [trade 1000 ''A'', trade 1000 ''B''])
     \<lparr>q_start = 0, q_end = 2000, q_source = None, q_side = None, q_limit = None\<rparr> =
     [trade 1000 ''B'', trade 1000 ''A''] \<and>
   range_spec [trade 1000 ''A'', trade 1000 ''B'']
     \<lparr>q_start = 0, q_end = 2000, q_source = None, q_side = None, q_limit = None\<rparr> =
     [trade 1000 ''A'', trade 1000 ''B''] \<and>
   getByTimeRange (inserts [trade 1000 ''A'', trade 1000 ''B''])
     \<lparr>q_start = 0, q_end = 2000, q_source = None, q_side = None, q_limit = Some 0\<rparr> =
     [trade 1000 ''B'', trade 1000 ''A''] \<and>
   range_spec [trade 1000 ''A'', trade 1000 ''B'']
     \<lparr>q_start = 0, q_end = 2000, q_source = None, q_side = None, q_limit = Some 0\<rparr> = []"
  by (simp add: getByTimeRange_inserts_cut cut_limit_active passes_iff range_spec_def trade_def)

end
